theory Spec2Isabelle
  imports Main "HOL-Library.Log_Nat"
begin

section \<open>Text and the character database\<close>

text \<open>
  A Python \<open>str\<close> is a sequence of Unicode code points, so a page text is a list of
  natural numbers. \<open>str\<close> turns an ASCII literal of the source into that form.
\<close>

type_synonym cp = nat
type_synonym pystr = "cp list"

definition str :: "string \<Rightarrow> pystr" where
  "str s = map of_char s"

text \<open>
  The classes \<open>\d\<close>, \<open>\s\<close>, \<open>\b\<close> and the flag \<open>re.IGNORECASE\<close> of a \<open>str\<close>
  pattern consult the Unicode database of the interpreter, which is not part of the
  repository and differs between interpreter versions. Its ASCII part is fixed and is
  written out below; the part beyond ASCII is a parameter of the model:
  \<^item> \<open>decimal_ext\<close>: the decimal digit value of a code point, if it has one;
  \<^item> \<open>space_ext\<close>: whether a code point is white space;
  \<^item> \<open>alnum_ext\<close>: whether a code point is alphanumeric;
  \<^item> \<open>lower_ext\<close>: the simple lower-case mapping;
  \<^item> \<open>cased_ext\<close>: whether a code point has case variants;
  \<^item> \<open>casefix\<close>: the extra equivalents the \<open>re\<close> engine adds to a lower-case letter
    under \<open>IGNORECASE\<close> (for instance dotless i for \<open>i\<close>).
\<close>

record ucd =
  decimal_ext :: "cp \<Rightarrow> nat option"
  space_ext :: "cp \<Rightarrow> bool"
  alnum_ext :: "cp \<Rightarrow> bool"
  lower_ext :: "cp \<Rightarrow> cp"
  cased_ext :: "cp \<Rightarrow> bool"
  casefix :: "cp \<Rightarrow> cp list"

definition digit_value :: "ucd \<Rightarrow> cp \<Rightarrow> nat option" where
  "digit_value U c =
     (if c < 128 then (if 0x30 \<le> c \<and> c \<le> 0x39 then Some (c - 0x30) else None)
      else decimal_ext U c)"

definition is_digit :: "ucd \<Rightarrow> cp \<Rightarrow> bool" where
  "is_digit U c = (digit_value U c \<noteq> None)"

definition is_space :: "ucd \<Rightarrow> cp \<Rightarrow> bool" where
  "is_space U c =
     (if c < 128 then (0x09 \<le> c \<and> c \<le> 0x0D) \<or> (0x1C \<le> c \<and> c \<le> 0x20)
      else space_ext U c)"

definition is_upper_ascii :: "cp \<Rightarrow> bool" where
  "is_upper_ascii c = (0x41 \<le> c \<and> c \<le> 0x5A)"

definition is_lower_ascii :: "cp \<Rightarrow> bool" where
  "is_lower_ascii c = (0x61 \<le> c \<and> c \<le> 0x7A)"

definition is_word :: "ucd \<Rightarrow> cp \<Rightarrow> bool" where
  \<comment> \<open>\<open>\w\<close>: alphanumeric or the underscore.\<close>
  "is_word U c =
     (if c < 128
      then (0x30 \<le> c \<and> c \<le> 0x39) \<or> is_upper_ascii c \<or> is_lower_ascii c \<or> c = 0x5F
      else alnum_ext U c)"

definition lower :: "ucd \<Rightarrow> cp \<Rightarrow> cp" where
  "lower U c = (if c < 128 then (if is_upper_ascii c then c + 0x20 else c) else lower_ext U c)"

definition is_cased :: "ucd \<Rightarrow> cp \<Rightarrow> bool" where
  "is_cased U c = (if c < 128 then is_upper_ascii c \<or> is_lower_ascii c else cased_ext U c)"

section \<open>The regular expressions of the source and their search\<close>

text \<open>
  The patterns of the source are built from single-character items (a literal, \<open>\d\<close>,
  \<open>\s\<close>), the repetitions \<open>{n}\<close>, \<open>*\<close> and \<open>+\<close> of such an item, the option \<open>?\<close>,
  concatenation, one capturing group and the word boundary \<open>\b\<close>. A non-capturing
  group \<open>(?:r)\<close> is its body.
\<close>

datatype atom = Lit cp | Digit | Space

datatype regex =
    One atom
  | Times nat atom
  | Star atom
  | Plus atom
  | Opt regex
  | Seq regex regex
  | Group regex
  | WordB
  | Eps

fun cat :: "regex list \<Rightarrow> regex" where
  "cat [] = Eps"
| "cat [r] = r"
| "cat (r # rs) = Seq r (cat rs)"

definition lits :: "string \<Rightarrow> regex" where
  "lits s = cat (map (\<lambda>c. One (Lit (of_char c))) s)"

text \<open>
  Whether one character of the text matches an item. Under \<open>IGNORECASE\<close> the engine
  compares the lower-cased text character with the lower-cased pattern letter and its
  listed equivalents; a pattern character without case is compared as it is.
\<close>

fun atom_ok :: "ucd \<Rightarrow> bool \<Rightarrow> atom \<Rightarrow> cp \<Rightarrow> bool" where
  "atom_ok U ic (Lit p) c =
     (if ic \<and> is_cased U p
      then lower U c = lower U p \<or> lower U c \<in> set (casefix U (lower U p))
      else c = p)"
| "atom_ok U ic Digit c = is_digit U c"
| "atom_ok U ic Space c = is_space U c"

definition at_boundary :: "ucd \<Rightarrow> pystr \<Rightarrow> nat \<Rightarrow> bool" where
  \<comment> \<open>\<open>\b\<close> at position \<open>i\<close>: exactly one of the two neighbours is a word character;
      outside the text counts as not a word character.\<close>
  "at_boundary U s i =
     ((0 < i \<and> i \<le> length s \<and> is_word U (s ! (i - 1))) \<noteq> (i < length s \<and> is_word U (s ! i)))"

definition run_len :: "ucd \<Rightarrow> bool \<Rightarrow> atom \<Rightarrow> pystr \<Rightarrow> nat \<Rightarrow> nat" where
  \<comment> \<open>How many characters from position \<open>i\<close> on match the item.\<close>
  "run_len U ic a s i = length (takeWhile (atom_ok U ic a) (drop i s))"

text \<open>
  The engine backtracks: from a position it tries the alternatives of a pattern in a
  fixed order (a greedy repetition tries the longest run first, an option tries its body
  first) and takes the first that lets the rest of the pattern match. \<open>run\<close> lists, in
  that order, every way a pattern can match from a state; a state is the position in the
  text and the span of group 1, if set.
\<close>

type_synonym mstate = "nat \<times> (nat \<times> nat) option"

fun run :: "ucd \<Rightarrow> bool \<Rightarrow> pystr \<Rightarrow> regex \<Rightarrow> mstate \<Rightarrow> mstate list" where
  "run U ic s (One a) (i, g) =
     (if i < length s \<and> atom_ok U ic a (s ! i) then [(Suc i, g)] else [])"
| "run U ic s (Times n a) (i, g) =
     (if n \<le> run_len U ic a s i then [(i + n, g)] else [])"
| "run U ic s (Star a) (i, g) =
     map (\<lambda>k. (i + k, g)) (rev [0 ..< Suc (run_len U ic a s i)])"
| "run U ic s (Plus a) (i, g) =
     map (\<lambda>k. (i + k, g)) (rev [1 ..< Suc (run_len U ic a s i)])"
| "run U ic s (Opt r) st = run U ic s r st @ [st]"
| "run U ic s (Seq r1 r2) st = concat (map (run U ic s r2) (run U ic s r1 st))"
| "run U ic s (Group r) (i, g) = map (\<lambda>(j, _). (j, Some (i, j))) (run U ic s r (i, g))"
| "run U ic s WordB (i, g) = (if at_boundary U s i then [(i, g)] else [])"
| "run U ic s Eps st = [st]"

record rmatch =
  m_start :: nat
  m_end :: nat
  m_group1 :: "(nat \<times> nat) option"

definition match_at :: "ucd \<Rightarrow> bool \<Rightarrow> regex \<Rightarrow> pystr \<Rightarrow> nat \<Rightarrow> rmatch option" where
  "match_at U ic r s i =
     (case run U ic s r (i, None) of
        [] \<Rightarrow> None
      | (j, g) # _ \<Rightarrow> Some \<lparr>m_start = i, m_end = j, m_group1 = g\<rparr>)"

fun first_match :: "ucd \<Rightarrow> bool \<Rightarrow> regex \<Rightarrow> pystr \<Rightarrow> nat list \<Rightarrow> rmatch option" where
  "first_match U ic r s [] = None"
| "first_match U ic r s (i # is) =
     (case match_at U ic r s i of
        Some m \<Rightarrow> Some m
      | None \<Rightarrow> first_match U ic r s is)"

definition search :: "ucd \<Rightarrow> bool \<Rightarrow> regex \<Rightarrow> pystr \<Rightarrow> rmatch option" where
  \<comment> \<open>\<open>re.search\<close>: the match at the leftmost position that has one; every position from
      0 to the length of the text is tried.\<close>
  "search U ic r s = first_match U ic r s [0 ..< Suc (length s)]"

definition group1 :: "pystr \<Rightarrow> rmatch \<Rightarrow> pystr option" where
  \<comment> \<open>\<open>m.group(1)\<close>: the text of group 1, \<open>None\<close> when the group took no part.\<close>
  "group1 s m = (case m_group1 m of None \<Rightarrow> None | Some (a, b) \<Rightarrow> Some (take (b - a) (drop a s)))"

text \<open>The three patterns of \<open>extract_latest\<close>; the degree sign is U+00B0.\<close>

definition ts_re :: regex where
  \<comment> \<open>\<open>\b(\d{4}-\d{2}-\d{2}\s+\d{2}:\d{2}:\d{2})\b\<close>\<close>
  "ts_re = cat [WordB,
     Group (cat [Times 4 Digit, One (Lit 0x2D), Times 2 Digit, One (Lit 0x2D), Times 2 Digit,
                 Plus Space,
                 Times 2 Digit, One (Lit 0x3A), Times 2 Digit, One (Lit 0x3A), Times 2 Digit]),
     WordB]"

definition temp_re :: regex where
  \<comment> \<open>\<open>(-?\d+(?:\.\d+)?)\s*\<degree>\s*C\<close>, the degree sign written as its code point\<close>
  "temp_re = cat [
     Group (cat [Opt (One (Lit 0x2D)), Plus Digit, Opt (Seq (One (Lit 0x2E)) (Plus Digit))]),
     Star Space, One (Lit 0xB0), Star Space, One (Lit 0x43)]"

definition ok_re :: regex where
  \<comment> \<open>\<open>\bEverything\s+ok\b\<close>\<close>
  "ok_re = cat [WordB, lits ''Everything'', Plus Space, lits ''ok'', WordB]"

section \<open>Conversion of text to a float\<close>

text \<open>
  A Python float is an IEEE 754 binary64 value. A finite one is its sign and its
  magnitude, a rational number; the sign is kept apart because \<open>-0.0\<close> is a value of
  its own.
\<close>

datatype pyfloat = Finite bool rat | Infinite bool | NaN

definition round_half_even :: "rat \<Rightarrow> int" where
  "round_half_even x =
     (let f = \<lfloor>x\<rfloor>; d = x - of_int f
      in if d < 1 / 2 then f else if 1 / 2 < d then f + 1 else if even f then f else f + 1)"

definition ilog2 :: "nat \<Rightarrow> nat \<Rightarrow> int" where
  \<comment> \<open>For \<open>n, d > 0\<close>: the exponent \<open>e\<close> with \<open>2 ^ e \<le> n / d < 2 ^ (e + 1)\<close>.\<close>
  "ilog2 n d =
     (let e = int (floorlog 2 n) - int (floorlog 2 d)
      in if (2::rat) powi e \<le> of_nat n / of_nat d then e else e - 1)"

definition round_binary64 :: "bool \<Rightarrow> nat \<Rightarrow> nat \<Rightarrow> pyfloat" where
  \<comment> \<open>The binary64 value nearest to \<open>n / d\<close> (ties to even), with the given sign. A
      magnitude of at least \<open>2 ^ 1024 - 2 ^ 970\<close> rounds to infinity.\<close>
  "round_binary64 neg n d =
     (let x = (of_nat n / of_nat d :: rat)
      in if n = 0 then Finite neg 0
         else if 2 ^ 1024 - 2 ^ 970 \<le> x then Infinite neg
         else (let e = max (ilog2 n d) (- 1022); q = (2::rat) powi (e - 52)
               in Finite neg (of_int (round_half_even (x / q)) * q)))"

datatype error = ValueError | TypeError | RequestException

definition digits_val :: "ucd \<Rightarrow> pystr \<Rightarrow> nat" where
  "digits_val U ds = foldl (\<lambda>a c. 10 * a + (case digit_value U c of Some v \<Rightarrow> v | None \<Rightarrow> 0)) 0 ds"

text \<open>
  \<open>float(s)\<close> on text written as an optional sign, digits and an optional point with
  digits, at least one digit in all; digits are those of the character database. Python
  accepts a few more spellings (an exponent, \<open>inf\<close>, \<open>nan\<close>, underscores between
  digits, blanks around the number); they contain characters that the group of the
  temperature pattern cannot match and are not modelled: here they raise.
\<close>

definition py_float :: "ucd \<Rightarrow> pystr \<Rightarrow> error + pyfloat" where
  "py_float U s =
     (let (neg, body) = (case s of
              [] \<Rightarrow> (False, [])
            | c # r \<Rightarrow> if c = 0x2D then (True, r) else if c = 0x2B then (False, r) else (False, s));
          ip = takeWhile (is_digit U) body;
          rest = dropWhile (is_digit U) body;
          (fp, rest') = (case rest of
              [] \<Rightarrow> ([], [])
            | c # r \<Rightarrow> if c = 0x2E then (takeWhile (is_digit U) r, dropWhile (is_digit U) r)
                       else ([], rest))
      in if rest' \<noteq> [] \<or> (ip = [] \<and> fp = []) then Inl ValueError
         else Inr (round_binary64 neg (digits_val U (ip @ fp)) (10 ^ length fp)))"

section \<open>The extractor\<close>

definition extract_latest :: "ucd \<Rightarrow> pystr \<Rightarrow> error + (pyfloat option \<times> pystr option \<times> pystr option)" where
  "extract_latest U page_text =
     (let ts_match = search U False ts_re page_text;
          timestamp = (case ts_match of None \<Rightarrow> None | Some m \<Rightarrow> group1 page_text m);
          temp_match = search U False temp_re page_text
      in case (case temp_match of
                 None \<Rightarrow> Inr None
               | Some m \<Rightarrow> (case group1 page_text m of
                     None \<Rightarrow> Inl TypeError
                   | Some g \<Rightarrow> (case py_float U g of Inl e \<Rightarrow> Inl e | Inr v \<Rightarrow> Inr (Some v))))
         of Inl e \<Rightarrow> Inl e
          | Inr temperature_c \<Rightarrow>
              (let ok_match = search U True ok_re page_text;
                   status = (if ok_match \<noteq> None then Some (str ''Everything ok'') else None)
               in Inr (temperature_c, timestamp, status)))"

text \<open>A small database for running examples: no digit, space, letter or case beyond ASCII.\<close>

definition ascii_ucd :: ucd where
  "ascii_ucd = \<lparr>decimal_ext = (\<lambda>_. None), space_ext = (\<lambda>_. False), alnum_ext = (\<lambda>_. False),
                lower_ext = (\<lambda>c. c), cased_ext = (\<lambda>_. False), casefix = (\<lambda>_. [])\<rparr>"

section \<open>Readings, the update parameters and the forwarding loop\<close>

text \<open>
  \<open>fetch_one_tank\<close> returns a dictionary with five fixed keys; it is a record here.
  \<open>tank_code\<close> is optional because \<open>post_to_base44\<close> reads it with \<open>get\<close> and accepts a
  missing or null code.
\<close>

record reading =
  tank_id :: int
  tank_code :: "pystr option"
  temperature_c :: "pyfloat option"
  last_update :: "pystr option"
  status_text :: "pystr option"

definition fetch_one_tank :: "ucd \<Rightarrow> pystr \<Rightarrow> int \<Rightarrow> pystr \<Rightarrow> error + reading" where
  \<comment> \<open>\<open>text\<close> is the body text the browser page returned for the tank.\<close>
  "fetch_one_tank U text tid tcode =
     (case extract_latest U text of
        Inl e \<Rightarrow> Inl e
      | Inr (temp, timestamp, status) \<Rightarrow>
          Inr \<lparr>tank_id = tid, tank_code = Some tcode, temperature_c = temp,
               last_update = timestamp, status_text = status\<rparr>)"

datatype pyval = VNone | VInt int | VFloat pyfloat | VStr pystr

type_synonym params = "string \<rightharpoonup> pyval"

definition put_if_truthy :: "string \<Rightarrow> pystr option \<Rightarrow> params \<Rightarrow> params" where
  \<comment> \<open>\<open>if v: params[k] = v\<close> for a string or null \<open>v\<close>.\<close>
  "put_if_truthy k v ps =
     (case v of None \<Rightarrow> ps | Some x \<Rightarrow> if x = [] then ps else ps(k \<mapsto> VStr x))"

definition build_params :: "pystr option \<Rightarrow> reading \<Rightarrow> params" where
  \<comment> \<open>The dictionary \<open>params\<close> that \<open>post_to_base44\<close> builds before the request.\<close>
  "build_params webhook_key payload =
     (let ps = [''tank_id'' \<mapsto> VInt (tank_id payload),
                ''temperature'' \<mapsto> (case temperature_c payload of None \<Rightarrow> VNone | Some t \<Rightarrow> VFloat t)];
          ps = put_if_truthy ''key'' webhook_key ps;
          ps = put_if_truthy ''tank_code'' (tank_code payload) ps;
          ps = put_if_truthy ''last_update'' (last_update payload) ps;
          ps = put_if_truthy ''status_text'' (status_text payload) ps
      in ps)"

text \<open>
  The network is a parameter: given the number of requests sent before, the address and
  the parameters, \<open>requests.get\<close> either raises (a timeout, a connection error) or
  returns a response with a status code and a body. The state of a run is what it has
  printed and the requests it has sent.
\<close>

record response =
  status_code :: int
  body :: pystr

type_synonym net = "nat \<Rightarrow> pystr \<Rightarrow> params \<Rightarrow> error + response"

record run_state =
  out :: "pystr list"
  calls :: "(pystr \<times> params) list"

definition post_to_base44 ::
  "net \<Rightarrow> pystr \<Rightarrow> pystr option \<Rightarrow> reading \<Rightarrow> run_state \<Rightarrow> (error + int \<times> pystr) \<times> run_state" where
  "post_to_base44 nw update_url webhook_key payload st =
     (let ps = build_params webhook_key payload;
          st' = st\<lparr>calls := calls st @ [(update_url, ps)]\<rparr>
      in case nw (length (calls st)) update_url ps of
           Inl e \<Rightarrow> (Inl e, st')
         | Inr r \<Rightarrow> (Inr (status_code r, take 200 (body r)), st'))"

fun nat_digits :: "nat \<Rightarrow> pystr" where
  "nat_digits n = (if n < 10 then [0x30 + n] else nat_digits (n div 10) @ [0x30 + n mod 10])"

definition py_str_int :: "int \<Rightarrow> pystr" where
  \<comment> \<open>How an f-string prints an integer.\<close>
  "py_str_int i = (if i < 0 then 0x2D # nat_digits (nat (- i)) else nat_digits (nat i))"

definition skip_line :: "reading \<Rightarrow> pystr" where
  "skip_line r = str ''Skip tank '' @ py_str_int (tank_id r) @ str '' - temperature not found''"

definition update_line :: "reading \<Rightarrow> int \<Rightarrow> pystr \<Rightarrow> pystr" where
  "update_line r code txt =
     str ''UpdateTank tank_id='' @ py_str_int (tank_id r) @ str '' -> '' @ py_str_int code
       @ str '' '' @ txt"

definition print :: "pystr \<Rightarrow> run_state \<Rightarrow> run_state" where
  "print l st = st\<lparr>out := out st @ [l]\<rparr>"

text \<open>
  The loop of \<open>main\<close> over the fetched results. There is no exception handler in the
  source, so an exception of the request ends the loop and the run: the result is the
  exception, if any, and the state reached.
\<close>

fun push_loop :: "net \<Rightarrow> pystr \<Rightarrow> pystr option \<Rightarrow> reading list \<Rightarrow> run_state \<Rightarrow> error option \<times> run_state" where
  "push_loop nw url key [] st = (None, st)"
| "push_loop nw url key (r # rs) st =
     (case temperature_c r of
        None \<Rightarrow> push_loop nw url key rs (print (skip_line r) st)
      | Some _ \<Rightarrow>
          (case post_to_base44 nw url key r st of
             (Inl e, st') \<Rightarrow> (Some e, st')
           | (Inr (code, txt), st') \<Rightarrow> push_loop nw url key rs (print (update_line r code txt) st')))"

definition main_push :: "net \<Rightarrow> pystr option \<Rightarrow> pystr \<Rightarrow> reading list \<Rightarrow> run_state \<Rightarrow> error option \<times> run_state" where
  \<comment> \<open>The last part of \<open>main\<close>: \<open>if base44_update_url: ...\<close>.\<close>
  "main_push nw base44_update_url webhook_key results st =
     (case base44_update_url of
        None \<Rightarrow> (None, st)
      | Some url \<Rightarrow>
          if url = [] then (None, st)
          else push_loop nw url (Some webhook_key) results
                 (print (0x0A # str ''Pushing to Base44...'') st))"

text \<open>Two networks for examples: one that is down, one that answers every request alike.\<close>

definition net_down :: net where
  "net_down n url ps = Inl RequestException"

definition net_status :: "int \<Rightarrow> pystr \<Rightarrow> net" where
  "net_status code txt n url ps = Inr \<lparr>status_code = code, body = txt\<rparr>"

declare nat_digits.simps [simp del]

section \<open>What a pattern denotes\<close>

text \<open>
  For stating and proving what the searches find: the part of a text between two
  positions, the set of texts a pattern without word boundary matches, and the patterns
  that contain no word boundary or no group.
\<close>

definition sub :: "pystr \<Rightarrow> nat \<Rightarrow> nat \<Rightarrow> pystr" where
  "sub s i j = take (j - i) (drop i s)"

fun lang :: "ucd \<Rightarrow> bool \<Rightarrow> regex \<Rightarrow> pystr set" where
  "lang U ic (One a) = {w. \<exists>c. w = [c] \<and> atom_ok U ic a c}"
| "lang U ic (Times n a) = {w. length w = n \<and> list_all (atom_ok U ic a) w}"
| "lang U ic (Star a) = {w. list_all (atom_ok U ic a) w}"
| "lang U ic (Plus a) = {w. w \<noteq> [] \<and> list_all (atom_ok U ic a) w}"
| "lang U ic (Opt r) = insert [] (lang U ic r)"
| "lang U ic (Seq r1 r2) = {w. \<exists>x y. w = x @ y \<and> x \<in> lang U ic r1 \<and> y \<in> lang U ic r2}"
| "lang U ic (Group r) = lang U ic r"
| "lang U ic WordB = {[]}"
| "lang U ic Eps = {[]}"

fun plain :: "regex \<Rightarrow> bool" where
  "plain WordB = False"
| "plain (Opt r) = plain r"
| "plain (Seq r1 r2) = (plain r1 \<and> plain r2)"
| "plain (Group r) = plain r"
| "plain _ = True"

fun ungrouped :: "regex \<Rightarrow> bool" where
  "ungrouped (Group r) = False"
| "ungrouped (Opt r) = ungrouped r"
| "ungrouped (Seq r1 r2) = (ungrouped r1 \<and> ungrouped r2)"
| "ungrouped _ = True"

text \<open>The parts of the patterns inside and after the group.\<close>

definition temp_num_re :: regex where
  "temp_num_re = cat [Opt (One (Lit 0x2D)), Plus Digit, Opt (Seq (One (Lit 0x2E)) (Plus Digit))]"

definition temp_tail_re :: regex where
  "temp_tail_re = cat [Star Space, One (Lit 0xB0), Star Space, One (Lit 0x43)]"

definition ts_core_re :: regex where
  "ts_core_re = cat [Times 4 Digit, One (Lit 0x2D), Times 2 Digit, One (Lit 0x2D), Times 2 Digit,
                 Plus Space,
                 Times 2 Digit, One (Lit 0x3A), Times 2 Digit, One (Lit 0x3A), Times 2 Digit]"

section \<open>The shapes of the specification\<close>

text \<open>
  What the specification says in words about the three fields, as predicates on texts.
  \<open>occurs_at s i t\<close>: the text \<open>t\<close> stands in \<open>s\<close> at position \<open>i\<close>.
\<close>

definition occurs_at :: "pystr \<Rightarrow> nat \<Rightarrow> pystr \<Rightarrow> bool" where
  "occurs_at s i t = (i \<le> length s \<and> take (length t) (drop i s) = t)"

definition temp_shape :: "ucd \<Rightarrow> pystr \<Rightarrow> pystr \<Rightarrow> bool" where
  \<comment> \<open>\<open>t\<close> is: an optional \<open>-\<close>, one or more digits, optionally a point and one or more
      digits (so far the numeric portion \<open>num\<close>), optional white space, the degree sign,
      optional white space, the letter \<open>C\<close>.\<close>
  "temp_shape U num t =
     (\<exists>sg ip fp w1 w2.
        num = sg @ ip @ fp \<and> t = num @ w1 @ [0xB0] @ w2 @ [0x43]
        \<and> (sg = [] \<or> sg = [0x2D])
        \<and> ip \<noteq> [] \<and> list_all (is_digit U) ip
        \<and> (fp = [] \<or> (\<exists>fd. fp = 0x2E # fd \<and> fd \<noteq> [] \<and> list_all (is_digit U) fd))
        \<and> list_all (is_space U) w1 \<and> list_all (is_space U) w2)"

definition ts_shape :: "ucd \<Rightarrow> pystr \<Rightarrow> bool" where
  \<comment> \<open>4 digits, \<open>-\<close>, 2 digits, \<open>-\<close>, 2 digits, one or more white space, 2 digits, \<open>:\<close>,
      2 digits, \<open>:\<close>, 2 digits.\<close>
  "ts_shape U t =
     (\<exists>y mo d w h mi se.
        t = y @ [0x2D] @ mo @ [0x2D] @ d @ w @ h @ [0x3A] @ mi @ [0x3A] @ se
        \<and> length y = 4 \<and> list_all (is_digit U) y
        \<and> length mo = 2 \<and> list_all (is_digit U) mo
        \<and> length d = 2 \<and> list_all (is_digit U) d
        \<and> w \<noteq> [] \<and> list_all (is_space U) w
        \<and> length h = 2 \<and> list_all (is_digit U) h
        \<and> length mi = 2 \<and> list_all (is_digit U) mi
        \<and> length se = 2 \<and> list_all (is_digit U) se)"

definition same_nocase :: "ucd \<Rightarrow> pystr \<Rightarrow> pystr \<Rightarrow> bool" where
  \<comment> \<open>\<open>t\<close> is the phrase \<open>p\<close> up to case, character by character, as \<open>IGNORECASE\<close>
      compares them.\<close>
  "same_nocase U p t = list_all2 (\<lambda>a c. atom_ok U True (Lit a) c) p t"

definition ok_shape :: "ucd \<Rightarrow> pystr \<Rightarrow> bool" where
  \<comment> \<open>\<open>Everything\<close>, one or more white space, \<open>ok\<close>, in any case.\<close>
  "ok_shape U t =
     (\<exists>e w k. t = e @ w @ k \<and> same_nocase U (str ''Everything'') e
        \<and> w \<noteq> [] \<and> list_all (is_space U) w \<and> same_nocase U (str ''ok'') k)"

definition word_delimited :: "ucd \<Rightarrow> pystr \<Rightarrow> nat \<Rightarrow> pystr \<Rightarrow> bool" where
  \<comment> \<open>\<open>t\<close> stands in \<open>s\<close> at \<open>i\<close> with a word boundary at both ends.\<close>
  "word_delimited U s i t =
     (occurs_at s i t \<and> at_boundary U s i \<and> at_boundary U s (i + length t))"

text \<open>
  What the proofs use of the character database beyond ASCII, and what holds of every
  version of it: a digit is not white space, the degree sign is not a digit, and the
  extra equivalents of an ASCII letter under \<open>IGNORECASE\<close> lie beyond ASCII.
\<close>

definition wf_ucd :: "ucd \<Rightarrow> bool" where
  "wf_ucd U =
     ((\<forall>c. is_digit U c \<longrightarrow> \<not> is_space U c)
      \<and> \<not> is_digit U 0xB0
      \<and> (\<forall>p x. p < 128 \<and> x \<in> set (casefix U p) \<longrightarrow> 128 \<le> x))"


section \<open>The update parameters\<close>

lemma put_if_truthy_apply:
  "put_if_truthy k v ps k' =
     (if k' = k \<and> v \<noteq> None \<and> v \<noteq> Some [] then map_option VStr v else ps k')"
  by (cases v) (simp_all add: put_if_truthy_def)

lemma dom_put_if_truthy: "dom (put_if_truthy k v ps) \<subseteq> insert k (dom ps)"
  by (auto simp: put_if_truthy_def split: option.splits if_splits)

lemma build_params_apply:
  "build_params key r k =
     put_if_truthy ''status_text'' (status_text r)
       (put_if_truthy ''last_update'' (last_update r)
         (put_if_truthy ''tank_code'' (tank_code r)
           (put_if_truthy ''key'' key
              [''tank_id'' \<mapsto> VInt (tank_id r),
               ''temperature'' \<mapsto> (case temperature_c r of None \<Rightarrow> VNone | Some t \<Rightarrow> VFloat t)]))) k"
  by (simp add: build_params_def Let_def)


lemma params_tank_id:
  "build_params key r ''tank_id'' = Some (VInt (tank_id r))"
  by (simp add: build_params_apply put_if_truthy_apply)

lemma params_temperature:
  "build_params key r ''temperature'' =
       Some (case temperature_c r of None \<Rightarrow> VNone | Some t \<Rightarrow> VFloat t)"
  by (simp add: build_params_apply put_if_truthy_apply)

lemma params_no_temperature_c:
  "build_params key r ''temperature_c'' = None"
  by (simp add: build_params_apply put_if_truthy_apply)

lemma params_key:
  "build_params key r ''key'' =
       (case key of None \<Rightarrow> None | Some x \<Rightarrow> if x = [] then None else Some (VStr x))"
  by (cases key) (simp_all add: build_params_apply put_if_truthy_apply)

lemma params_tank_code:
  "build_params key r ''tank_code'' =
       (case tank_code r of None \<Rightarrow> None | Some x \<Rightarrow> if x = [] then None else Some (VStr x))"
  by (cases "tank_code r") (simp_all add: build_params_apply put_if_truthy_apply)

lemma params_last_update:
  "build_params key r ''last_update'' =
       (case last_update r of None \<Rightarrow> None | Some x \<Rightarrow> if x = [] then None else Some (VStr x))"
  by (cases "last_update r") (simp_all add: build_params_apply put_if_truthy_apply)

lemma params_status_text:
  "build_params key r ''status_text'' =
       (case status_text r of None \<Rightarrow> None | Some x \<Rightarrow> if x = [] then None else Some (VStr x))"
  by (cases "status_text r") (simp_all add: build_params_apply put_if_truthy_apply)

lemma params_example_no_key:
  "build_params None \<lparr>tank_id = 5, tank_code = None, temperature_c = Some (Finite False 7),
         last_update = None, status_text = None\<rparr>
       = [''tank_id'' \<mapsto> VInt 5, ''temperature'' \<mapsto> VFloat (Finite False 7)]"
  by (simp add: build_params_def put_if_truthy_def)

lemma params_example_empty_key:
  "build_params (Some []) \<lparr>tank_id = 5, tank_code = None, temperature_c = Some (Finite False 7),
         last_update = None, status_text = None\<rparr>
       = [''tank_id'' \<mapsto> VInt 5, ''temperature'' \<mapsto> VFloat (Finite False 7)]"
  by (simp add: build_params_def put_if_truthy_def)
lemma build_params_keys:
  "dom (build_params key r) \<subseteq>
     {''tank_id'', ''temperature'', ''key'', ''tank_code'', ''last_update'', ''status_text''}"
proof
  fix k assume "k \<in> dom (build_params key r)"
  then have k: "build_params key r k \<noteq> None" by (simp add: dom_def)
  show "k \<in> {''tank_id'', ''temperature'', ''key'', ''tank_code'', ''last_update'', ''status_text''}"
  proof (rule ccontr)
    assume "k \<notin> {''tank_id'', ''temperature'', ''key'', ''tank_code'', ''last_update'', ''status_text''}"
    then have "k \<noteq> ''tank_id''" "k \<noteq> ''temperature''" "k \<noteq> ''key''" "k \<noteq> ''tank_code''"
        "k \<noteq> ''last_update''" "k \<noteq> ''status_text''"
      by simp_all
    then have "build_params key r k = None"
      unfolding build_params_apply put_if_truthy_apply by simp
    with k show False by simp
  qed
qed

text \<open>
  C2. The parameters always hold \<open>tank_id\<close> and \<open>temperature\<close> (the reading's
  \<open>temperature_c\<close> under the older name; there is no key \<open>temperature_c\<close>); each of
  \<open>key\<close>, \<open>tank_code\<close>, \<open>last_update\<close>, \<open>status_text\<close> is present exactly when its
  source is a non-empty string, with that string as value; there is no other key. For
  tank 5 at 7.0 degrees with nothing else set the parameters are exactly
  \<open>{tank_id: 5, temperature: 7.0}\<close>.
\<close>

theorem build_params_contents:
  "build_params key r ''tank_id'' = Some (VInt (tank_id r))
   \<and> build_params key r ''temperature'' =
       Some (case temperature_c r of None \<Rightarrow> VNone | Some t \<Rightarrow> VFloat t)
   \<and> build_params key r ''temperature_c'' = None
   \<and> build_params key r ''key'' =
       (case key of None \<Rightarrow> None | Some x \<Rightarrow> if x = [] then None else Some (VStr x))
   \<and> build_params key r ''tank_code'' =
       (case tank_code r of None \<Rightarrow> None | Some x \<Rightarrow> if x = [] then None else Some (VStr x))
   \<and> build_params key r ''last_update'' =
       (case last_update r of None \<Rightarrow> None | Some x \<Rightarrow> if x = [] then None else Some (VStr x))
   \<and> build_params key r ''status_text'' =
       (case status_text r of None \<Rightarrow> None | Some x \<Rightarrow> if x = [] then None else Some (VStr x))
   \<and> dom (build_params key r) \<subseteq>
       {''tank_id'', ''temperature'', ''key'', ''tank_code'', ''last_update'', ''status_text''}
   \<and> build_params None \<lparr>tank_id = 5, tank_code = None, temperature_c = Some (Finite False 7),
         last_update = None, status_text = None\<rparr>
       = [''tank_id'' \<mapsto> VInt 5, ''temperature'' \<mapsto> VFloat (Finite False 7)]
   \<and> build_params (Some []) \<lparr>tank_id = 5, tank_code = None, temperature_c = Some (Finite False 7),
         last_update = None, status_text = None\<rparr>
       = [''tank_id'' \<mapsto> VInt 5, ''temperature'' \<mapsto> VFloat (Finite False 7)]"
  by (intro conjI)
     (rule params_tank_id params_temperature params_no_temperature_c params_key params_tank_code
           params_last_update params_status_text build_params_keys params_example_no_key
           params_example_empty_key)+

section \<open>The forwarding loop\<close>

lemma post_calls:
  "calls (snd (post_to_base44 nw url key r st)) = calls st @ [(url, build_params key r)]"
  "out (snd (post_to_base44 nw url key r st)) = out st"
  by (simp_all add: post_to_base44_def Let_def split: sum.splits)

lemma push_loop_calls:
  "\<exists>n. calls (snd (push_loop nw url key rs st)) =
        calls st @ map (\<lambda>r. (url, build_params key r)) (take n (filter (\<lambda>r. temperature_c r \<noteq> None) rs))"
proof (induction rs arbitrary: st)
  case Nil
  then show ?case by simp
next
  case (Cons r rs)
  show ?case
  proof (cases "temperature_c r")
    case None
    from Cons.IH [of "print (skip_line r) st"] obtain n where
      "calls (snd (push_loop nw url key rs (print (skip_line r) st))) =
         calls (print (skip_line r) st) @
         map (\<lambda>r. (url, build_params key r)) (take n (filter (\<lambda>r. temperature_c r \<noteq> None) rs))"
      by blast
    with None show ?thesis by (auto simp: print_def)
  next
    case (Some t)
    obtain res st' where p: "post_to_base44 nw url key r st = (res, st')" by (cases "post_to_base44 nw url key r st")
    then have c: "calls st' = calls st @ [(url, build_params key r)]"
      using post_calls(1) [of nw url key r st] by simp
    show ?thesis
    proof (cases res)
      case (Inl e)
      with Some p c show ?thesis by (auto intro!: exI [of _ 1])
    next
      case (Inr ct)
      obtain code tx where ct: "ct = (code, tx)" by (cases ct)
      from Cons.IH [of "print (update_line r code tx) st'"] obtain n where
        "calls (snd (push_loop nw url key rs (print (update_line r code tx) st'))) =
           calls (print (update_line r code tx) st') @
           map (\<lambda>r. (url, build_params key r)) (take n (filter (\<lambda>r. temperature_c r \<noteq> None) rs))"
        by blast
      with Some p c Inr ct show ?thesis by (auto simp: print_def intro!: exI [of _ "Suc n"])
    qed
  qed
qed

text \<open>
  C3. A reading without a temperature is skipped: the loop sends no request for it (the
  requests sent stay as they were), prints the line \<open>Skip tank <id> - temperature not
  found\<close> and goes on with the readings that follow. Over a whole list, whatever the
  network answers, the requests sent are those of readings that have a temperature, in
  their order, and none of a reading without one.
\<close>

theorem skip_null_temperature:
  "temperature_c r = None \<Longrightarrow>
     push_loop nw url key (r # rs) st = push_loop nw url key rs (print (skip_line r) st)
     \<and> calls (print (skip_line r) st) = calls st
     \<and> out (print (skip_line r) st) = out st @ [skip_line r]
     \<and> skip_line r = str ''Skip tank '' @ py_str_int (tank_id r) @ str '' - temperature not found''
     \<and> (\<exists>n. calls (snd (push_loop nw url key (pre @ r # rs) st)) =
           calls st @ map (\<lambda>r. (url, build_params key r))
             (take n (filter (\<lambda>r. temperature_c r \<noteq> None) (pre @ rs))))"
  using push_loop_calls [of nw url key "pre @ r # rs" st]
  by (simp add: print_def skip_line_def)

text \<open>
  C9. The skip test is on the null value alone. A reading with any temperature, zero
  included, is not skipped: exactly one request is sent for it, with the temperature among
  the parameters, no skip line is printed, and the loop goes on according to the outcome
  of the request.
\<close>

theorem forward_any_temperature:
  "temperature_c r = Some t \<Longrightarrow>
     calls (snd (post_to_base44 nw url key r st)) = calls st @ [(url, build_params key r)]
     \<and> out (snd (post_to_base44 nw url key r st)) = out st
     \<and> push_loop nw url key (r # rs) st =
        (case post_to_base44 nw url key r st of
           (Inl e, st') \<Rightarrow> (Some e, st')
         | (Inr (code, txt), st') \<Rightarrow> push_loop nw url key rs (print (update_line r code txt) st'))
     \<and> build_params key r ''temperature'' = Some (VFloat t)"
  by (simp add: post_calls build_params_def Let_def put_if_truthy_def split: option.splits)

text \<open>
  C4, as the code has it. A request that returns a response, whatever its status code,
  is reported as the line \<open>UpdateTank tank_id=<id> -> <code> <first 200 characters of the
  body>\<close>, and the loop goes on with the next reading. A request that raises (a timeout,
  a network error) is not caught: the exception leaves the loop at once, nothing is
  printed for the tank and the readings after it are not processed.
\<close>

theorem forward_step_outcomes:
  "temperature_c r = Some t \<Longrightarrow>
     (\<forall>resp. nw (length (calls st)) url (build_params key r) = Inr resp \<longrightarrow>
        push_loop nw url key (r # rs) st =
          push_loop nw url key rs
            (print (update_line r (status_code resp) (take 200 (body resp)))
               (st\<lparr>calls := calls st @ [(url, build_params key r)]\<rparr>)))
     \<and> (\<forall>e. nw (length (calls st)) url (build_params key r) = Inl e \<longrightarrow>
        push_loop nw url key (r # rs) st = (Some e, st\<lparr>calls := calls st @ [(url, build_params key r)]\<rparr>))"
  by (simp add: post_to_base44_def Let_def)

lemma nat_digits_small: "n < 10 \<Longrightarrow> nat_digits n = [0x30 + n]"
  by (simp add: nat_digits.simps)

lemma nat_digits_large: "\<not> n < 10 \<Longrightarrow> nat_digits n = nat_digits (n div 10) @ [0x30 + n mod 10]"
  by (subst nat_digits.simps) simp

text \<open>A tank without temperature on its own: one skip line, no request.\<close>

theorem skip_null_temperature_witness:
  "temperature_c \<lparr>tank_id = 3, tank_code = Some (str ''A''), temperature_c = None,
       last_update = None, status_text = None\<rparr> = None
   \<and> push_loop net_down (str ''u'') None
        [\<lparr>tank_id = 3, tank_code = Some (str ''A''), temperature_c = None,
           last_update = None, status_text = None\<rparr>] \<lparr>out = [], calls = []\<rparr>
      = (None, \<lparr>out = [str ''Skip tank 3 - temperature not found''], calls = []\<rparr>)"
  using skip_null_temperature [of "\<lparr>tank_id = 3, tank_code = Some (str ''A''), temperature_c = None,
       last_update = None, status_text = None\<rparr>" net_down "str ''u''" None "[]" "\<lparr>out = [], calls = []\<rparr>" "[]"]
  by (simp add: print_def skip_line_def py_str_int_def nat_digits_small str_def)

text \<open>A tank at 0.0 degrees is forwarded.\<close>

theorem forward_any_temperature_witness:
  "temperature_c \<lparr>tank_id = 3, tank_code = None, temperature_c = Some (Finite False 0),
       last_update = None, status_text = None\<rparr> = Some (Finite False 0)
   \<and> push_loop (net_status 200 (str ''ok'')) (str ''u'') None
        [\<lparr>tank_id = 3, tank_code = None, temperature_c = Some (Finite False 0),
           last_update = None, status_text = None\<rparr>] \<lparr>out = [], calls = []\<rparr>
      = (None, \<lparr>out = [str ''UpdateTank tank_id=3 -> 200 ok''],
                calls = [(str ''u'', [''tank_id'' \<mapsto> VInt 3, ''temperature'' \<mapsto> VFloat (Finite False 0)])]\<rparr>)"
  using forward_any_temperature [of "\<lparr>tank_id = 3, tank_code = None, temperature_c = Some (Finite False 0),
       last_update = None, status_text = None\<rparr>" "Finite False 0" "net_status 200 (str ''ok'')" "str ''u''" None
       "\<lparr>out = [], calls = []\<rparr>" "[]"]
  by (simp add: post_to_base44_def net_status_def build_params_def put_if_truthy_def print_def
        update_line_def py_str_int_def nat_digits_small nat_digits_large str_def)

text \<open>A status 500 is reported and the run ends normally; a network that is down ends it with the exception.\<close>

theorem forward_step_outcomes_witness:
  "temperature_c \<lparr>tank_id = 1, tank_code = None, temperature_c = Some (Finite False 7),
       last_update = None, status_text = None\<rparr> = Some (Finite False 7)
   \<and> push_loop (net_status 500 (str ''no'')) (str ''u'') None
        [\<lparr>tank_id = 1, tank_code = None, temperature_c = Some (Finite False 7),
           last_update = None, status_text = None\<rparr>] \<lparr>out = [], calls = []\<rparr>
      = (None, \<lparr>out = [str ''UpdateTank tank_id=1 -> 500 no''],
                calls = [(str ''u'', [''tank_id'' \<mapsto> VInt 1, ''temperature'' \<mapsto> VFloat (Finite False 7)])]\<rparr>)
   \<and> push_loop net_down (str ''u'') None
        [\<lparr>tank_id = 1, tank_code = None, temperature_c = Some (Finite False 7),
           last_update = None, status_text = None\<rparr>] \<lparr>out = [], calls = []\<rparr>
      = (Some RequestException, \<lparr>out = [],
                calls = [(str ''u'', [''tank_id'' \<mapsto> VInt 1, ''temperature'' \<mapsto> VFloat (Finite False 7)])]\<rparr>)"
  using forward_step_outcomes [of "\<lparr>tank_id = 1, tank_code = None, temperature_c = Some (Finite False 7),
       last_update = None, status_text = None\<rparr>" "Finite False 7" "net_status 500 (str ''no'')" "\<lparr>out = [], calls = []\<rparr>"
       "str ''u''" None "[]"]
    forward_step_outcomes [of "\<lparr>tank_id = 1, tank_code = None, temperature_c = Some (Finite False 7),
       last_update = None, status_text = None\<rparr>" "Finite False 7" net_down "\<lparr>out = [], calls = []\<rparr>"
       "str ''u''" None "[]"]
  by (simp add: net_status_def net_down_def build_params_def put_if_truthy_def print_def
        update_line_def py_str_int_def nat_digits_small nat_digits_large str_def)

text \<open>
  C4 as stated fails: with the network down and two tanks that both have a temperature,
  the first request raises, the run ends with the exception, no line is printed for
  either tank and the second tank is never forwarded.
\<close>

theorem request_failure_aborts_run:
  "main_push net_down (Some (str ''u'')) []
     [\<lparr>tank_id = 1, tank_code = None, temperature_c = Some (Finite False 7),
        last_update = None, status_text = None\<rparr>,
      \<lparr>tank_id = 2, tank_code = None, temperature_c = Some (Finite False 8),
        last_update = None, status_text = None\<rparr>] \<lparr>out = [], calls = []\<rparr>
   = (Some RequestException,
      \<lparr>out = [0x0A # str ''Pushing to Base44...''],
       calls = [(str ''u'', [''tank_id'' \<mapsto> VInt 1, ''temperature'' \<mapsto> VFloat (Finite False 7)])]\<rparr>)"
  by (simp add: main_push_def post_to_base44_def net_down_def build_params_def put_if_truthy_def
        print_def str_def)

section \<open>The engine finds what the pattern denotes\<close>

lemma sub_split: "i \<le> k \<Longrightarrow> k \<le> j \<Longrightarrow> sub s i k @ sub s k j = sub s i j"
proof -
  assume a: "i \<le> k" "k \<le> j"
  have "take (j - i) (drop i s) = take (k - i) (drop i s) @ take (j - k) (drop (k - i) (drop i s))"
    using a take_add [of "k - i" "j - k" "drop i s"] by simp
  then show ?thesis using a by (simp add: sub_def)
qed

lemma length_sub: "j \<le> length s \<Longrightarrow> length (sub s i j) = j - i"
  by (simp add: sub_def)

lemma sub_self [simp]: "sub s i i = []"
  by (simp add: sub_def)

lemma run_len_iff:
  "k \<le> run_len U ic a s i \<longleftrightarrow> (i + k \<le> length s \<or> k = 0) \<and> list_all (atom_ok U ic a) (sub s i (i + k))"
proof -
  have tw: "\<And>xs. k \<le> length (takeWhile P xs) \<longleftrightarrow> (k \<le> length xs \<and> list_all P (take k xs))" for P :: "nat \<Rightarrow> bool"
  proof -
    fix xs show "k \<le> length (takeWhile P xs) \<longleftrightarrow> (k \<le> length xs \<and> list_all P (take k xs))"
    proof (induction xs arbitrary: k)
      case Nil then show ?case by simp
    next
      case (Cons x xs) then show ?case by (cases k) auto
    qed
  qed
  show ?thesis
    unfolding run_len_def sub_def tw by (cases "k = 0") auto
qed

lemma sub_Nil_iff: "i \<le> j \<Longrightarrow> j \<le> length s \<Longrightarrow> sub s i j = [] \<longleftrightarrow> j = i"
  using length_sub [of j s i] by auto

lemma sub_Suc: "i < length s \<Longrightarrow> sub s i (Suc i) = [s ! i]"
  by (simp add: sub_def take_Suc_conv_app_nth hd_drop_conv_nth take_Suc)

lemma ends_lang:
  "plain r \<Longrightarrow> i \<le> length s \<Longrightarrow>
   (\<exists>g'. (j, g') \<in> set (run U ic s r (i, g))) \<longleftrightarrow> (i \<le> j \<and> j \<le> length s \<and> sub s i j \<in> lang U ic r)"
proof (induction r arbitrary: i j g)
  case (One a)
  show ?case
  proof
    assume "\<exists>g'. (j, g') \<in> set (run U ic s (One a) (i, g))"
    then have "i < length s" "atom_ok U ic a (s ! i)" "j = Suc i" by (auto split: if_splits)
    then show "i \<le> j \<and> j \<le> length s \<and> sub s i j \<in> lang U ic (One a)"
      by (simp add: sub_Suc)
  next
    assume a: "i \<le> j \<and> j \<le> length s \<and> sub s i j \<in> lang U ic (One a)"
    then obtain c where c: "sub s i j = [c]" "atom_ok U ic a c" by auto
    from a c have "j - i = 1" using length_sub [of j s i] by simp
    then have j: "j = Suc i" "i < length s" using a by auto
    with c have "s ! i = c" by (simp add: sub_Suc)
    with j c show "\<exists>g'. (j, g') \<in> set (run U ic s (One a) (i, g))" by simp
  qed
next
  case (Times n a)
  show ?case
  proof
    assume "\<exists>g'. (j, g') \<in> set (run U ic s (Times n a) (i, g))"
    then have n: "n \<le> run_len U ic a s i" "j = i + n" by (auto split: if_splits)
    then have "(i + n \<le> length s \<or> n = 0) \<and> list_all (atom_ok U ic a) (sub s i (i + n))"
      by (simp add: run_len_iff)
    with n Times.prems show "i \<le> j \<and> j \<le> length s \<and> sub s i j \<in> lang U ic (Times n a)"
      by (auto simp: length_sub)
  next
    assume a: "i \<le> j \<and> j \<le> length s \<and> sub s i j \<in> lang U ic (Times n a)"
    then have "j = i + n" using length_sub [of j s i] by auto
    with a have "n \<le> run_len U ic a s i" by (simp add: run_len_iff)
    with \<open>j = i + n\<close> show "\<exists>g'. (j, g') \<in> set (run U ic s (Times n a) (i, g))" by simp
  qed
next
  case (Star a)
  have "(\<exists>g'. (j, g') \<in> set (run U ic s (Star a) (i, g))) \<longleftrightarrow> (\<exists>k \<le> run_len U ic a s i. j = i + k)"
    by (auto simp: image_iff less_Suc_eq_le)
  also have "\<dots> \<longleftrightarrow> (i \<le> j \<and> j \<le> length s \<and> sub s i j \<in> lang U ic (Star a))"
    using Star.prems by (auto simp: run_len_iff intro: exI [of _ "j - i"])
  finally show ?case .
next
  case (Plus a)
  have "(\<exists>g'. (j, g') \<in> set (run U ic s (Plus a) (i, g))) \<longleftrightarrow> (\<exists>k \<le> run_len U ic a s i. 1 \<le> k \<and> j = i + k)"
    by (auto simp: image_iff less_Suc_eq_le)
  also have "\<dots> \<longleftrightarrow> (i \<le> j \<and> j \<le> length s \<and> sub s i j \<in> lang U ic (Plus a))"
  proof
    assume "\<exists>k \<le> run_len U ic a s i. 1 \<le> k \<and> j = i + k"
    then obtain k where k: "k \<le> run_len U ic a s i" "1 \<le> k" "j = i + k" by blast
    then have "i + k \<le> length s" "list_all (atom_ok U ic a) (sub s i (i + k))"
      by (auto simp: run_len_iff)
    moreover from this k have "sub s i (i + k) \<noteq> []" using length_sub [of "i + k" s i] by auto
    ultimately show "i \<le> j \<and> j \<le> length s \<and> sub s i j \<in> lang U ic (Plus a)" using k by simp
  next
    assume a: "i \<le> j \<and> j \<le> length s \<and> sub s i j \<in> lang U ic (Plus a)"
    then have "j - i \<noteq> 0" using length_sub [of j s i] by auto
    with a show "\<exists>k \<le> run_len U ic a s i. 1 \<le> k \<and> j = i + k"
      by (intro exI [of _ "j - i"]) (auto simp: run_len_iff)
  qed
  finally show ?case .
next
  case (Opt r)
  have e: "sub s i j = [] \<longleftrightarrow> j = i" if "i \<le> j" "j \<le> length s"
    using that length_sub [of j s i] by auto
  have "(\<exists>g'. (j, g') \<in> set (run U ic s (Opt r) (i, g))) \<longleftrightarrow>
        (\<exists>g'. (j, g') \<in> set (run U ic s r (i, g))) \<or> j = i"
    by auto
  also have "\<dots> \<longleftrightarrow> (i \<le> j \<and> j \<le> length s \<and> sub s i j \<in> lang U ic r) \<or> j = i"
    using Opt.IH [of i j g] Opt.prems by simp
  also have "\<dots> \<longleftrightarrow> (i \<le> j \<and> j \<le> length s \<and> sub s i j \<in> lang U ic (Opt r))"
    using Opt.prems e by auto
  finally show ?case .
next
  case (Seq r1 r2)
  from Seq.prems have p: "plain r1" "plain r2" by simp_all
  show ?case
  proof
    assume "\<exists>g'. (j, g') \<in> set (run U ic s (Seq r1 r2) (i, g))"
    then obtain g' k g0 where k: "(k, g0) \<in> set (run U ic s r1 (i, g))" "(j, g') \<in> set (run U ic s r2 (k, g0))"
      by auto
    from k(1) have 1: "i \<le> k \<and> k \<le> length s \<and> sub s i k \<in> lang U ic r1"
      using Seq.IH(1) [OF p(1) Seq.prems(2), of k g] by blast
    with k(2) have 2: "k \<le> j \<and> j \<le> length s \<and> sub s k j \<in> lang U ic r2"
      using Seq.IH(2) [OF p(2), of k j g0] by blast
    from 1 2 have "sub s i j = sub s i k @ sub s k j" by (simp add: sub_split)
    with 1 2 show "i \<le> j \<and> j \<le> length s \<and> sub s i j \<in> lang U ic (Seq r1 r2)"
      by auto
  next
    assume a: "i \<le> j \<and> j \<le> length s \<and> sub s i j \<in> lang U ic (Seq r1 r2)"
    then obtain x y where xy: "sub s i j = x @ y" "x \<in> lang U ic r1" "y \<in> lang U ic r2" by auto
    define k where "k = i + length x"
    from a xy(1) have len: "length x + length y = j - i" using length_sub [of j s i] by simp
    then have kj: "i \<le> k" "k \<le> j" using a by (auto simp: k_def)
    have "sub s i k @ sub s k j = x @ y" using kj xy(1) by (simp add: sub_split)
    moreover have "length (sub s i k) = length x" using kj a by (simp add: length_sub k_def)
    ultimately have eq: "sub s i k = x" "sub s k j = y" by auto
    from eq xy kj a obtain g0 where g0: "(k, g0) \<in> set (run U ic s r1 (i, g))"
      using Seq.IH(1) [OF p(1) Seq.prems(2), of k g] by auto
    from eq xy kj a obtain g' where "(j, g') \<in> set (run U ic s r2 (k, g0))"
      using Seq.IH(2) [OF p(2), of k j g0] by auto
    with g0 show "\<exists>g'. (j, g') \<in> set (run U ic s (Seq r1 r2) (i, g))" by auto
  qed
next
  case (Group r)
  have "(\<exists>g'. (j, g') \<in> set (run U ic s (Group r) (i, g))) \<longleftrightarrow>
        (\<exists>g'. (j, g') \<in> set (run U ic s r (i, g)))"
    by (auto simp: image_iff split: prod.splits)
  then show ?case using Group.IH [of i j g] Group.prems by simp
next
  case WordB
  then show ?case by simp
next
  case Eps
  then show ?case by (auto simp: sub_Nil_iff)
qed

lemma ungrouped_keeps:
  "ungrouped r \<Longrightarrow> (j, g') \<in> set (run U ic s r (i, g)) \<Longrightarrow> g' = g"
proof (induction r arbitrary: i j g g')
  case (Seq r1 r2)
  from Seq.prems(2) obtain k g0 where k: "(k, g0) \<in> set (run U ic s r1 (i, g))"
      "(j, g') \<in> set (run U ic s r2 (k, g0))"
    by auto
  from Seq.prems(1) have "g0 = g" using Seq.IH(1) [OF _ k(1)] by simp
  moreover from Seq.prems(1) have "g' = g0" using Seq.IH(2) [OF _ k(2)] by simp
  ultimately show ?case by simp
next
  case (Opt r)
  then show ?case by auto
qed (auto split: if_splits)

lemma first_match_None_iff:
  "first_match U ic r s is = None \<longleftrightarrow> (\<forall>i \<in> set is. run U ic s r (i, None) = [])"
  by (induction "is") (auto simp: match_at_def split: option.splits list.splits)

lemma first_match_upt_Some:
  "first_match U ic r s [a ..< b] = Some m \<longleftrightarrow>
     (\<exists>i j g rest. a \<le> i \<and> i < b \<and> (\<forall>k. a \<le> k \<and> k < i \<longrightarrow> run U ic s r (k, None) = []) \<and>
        run U ic s r (i, None) = (j, g) # rest \<and> m = \<lparr>m_start = i, m_end = j, m_group1 = g\<rparr>)"
proof (induction "b - a" arbitrary: a)
  case 0
  then show ?case by simp
next
  case (Suc n)
  then have ab: "a < b" and n: "n = b - Suc a" by simp_all
  have upt: "[a ..< b] = a # [Suc a ..< b]" using ab by (simp add: upt_conv_Cons)
  show ?case
  proof (cases "run U ic s r (a, None)")
    case Nil
    have "first_match U ic r s [a ..< b] = first_match U ic r s [Suc a ..< b]"
      using Nil by (simp add: upt match_at_def)
    also have "\<dots> = Some m \<longleftrightarrow>
     (\<exists>i j g rest. Suc a \<le> i \<and> i < b \<and> (\<forall>k. Suc a \<le> k \<and> k < i \<longrightarrow> run U ic s r (k, None) = []) \<and>
        run U ic s r (i, None) = (j, g) # rest \<and> m = \<lparr>m_start = i, m_end = j, m_group1 = g\<rparr>)"
      using Suc.hyps(1) [OF n] .
    also have "\<dots> \<longleftrightarrow> (\<exists>i j g rest. a \<le> i \<and> i < b \<and> (\<forall>k. a \<le> k \<and> k < i \<longrightarrow> run U ic s r (k, None) = []) \<and>
        run U ic s r (i, None) = (j, g) # rest \<and> m = \<lparr>m_start = i, m_end = j, m_group1 = g\<rparr>)"
      (is "?L \<longleftrightarrow> ?R")
    proof
      assume ?L
      then obtain i j g rest where h: "Suc a \<le> i" "i < b" "\<forall>k. Suc a \<le> k \<and> k < i \<longrightarrow> run U ic s r (k, None) = []"
        "run U ic s r (i, None) = (j, g) # rest" "m = \<lparr>m_start = i, m_end = j, m_group1 = g\<rparr>" by blast
      have "\<forall>k. a \<le> k \<and> k < i \<longrightarrow> run U ic s r (k, None) = []"
      proof (intro allI impI)
        fix k assume "a \<le> k \<and> k < i"
        then show "run U ic s r (k, None) = []" using h(3) Nil by (cases "k = a") auto
      qed
      with h show ?R by - (rule exI [of _ i], rule exI [of _ j], rule exI [of _ g], rule exI [of _ rest], simp)
    next
      assume ?R
      then obtain i j g rest where h: "a \<le> i" "i < b" "\<forall>k. a \<le> k \<and> k < i \<longrightarrow> run U ic s r (k, None) = []"
        "run U ic s r (i, None) = (j, g) # rest" "m = \<lparr>m_start = i, m_end = j, m_group1 = g\<rparr>" by blast
      from h(4) Nil have "i \<noteq> a" by auto
      with h show ?L by - (rule exI [of _ i], rule exI [of _ j], rule exI [of _ g], rule exI [of _ rest], simp)
    qed
    finally show ?thesis .
  next
    case (Cons x rest)
    obtain j g where x: "x = (j, g)" by (cases x)
    have 1: "first_match U ic r s [a ..< b] = Some \<lparr>m_start = a, m_end = j, m_group1 = g\<rparr>"
      using Cons x by (simp add: upt match_at_def)
    show ?thesis
    proof
      assume "first_match U ic r s [a ..< b] = Some m"
      with 1 have "m = \<lparr>m_start = a, m_end = j, m_group1 = g\<rparr>" by simp
      with Cons x ab show "\<exists>i j g rest. a \<le> i \<and> i < b \<and> (\<forall>k. a \<le> k \<and> k < i \<longrightarrow> run U ic s r (k, None) = []) \<and>
        run U ic s r (i, None) = (j, g) # rest \<and> m = \<lparr>m_start = i, m_end = j, m_group1 = g\<rparr>"
        by - (rule exI [of _ a], rule exI [of _ j], rule exI [of _ g], rule exI [of _ rest], auto)
    next
      assume "\<exists>i j g rest. a \<le> i \<and> i < b \<and> (\<forall>k. a \<le> k \<and> k < i \<longrightarrow> run U ic s r (k, None) = []) \<and>
        run U ic s r (i, None) = (j, g) # rest \<and> m = \<lparr>m_start = i, m_end = j, m_group1 = g\<rparr>"
      then obtain i j' g' rest' where h: "a \<le> i" "i < b" "\<forall>k. a \<le> k \<and> k < i \<longrightarrow> run U ic s r (k, None) = []"
        "run U ic s r (i, None) = (j', g') # rest'" "m = \<lparr>m_start = i, m_end = j', m_group1 = g'\<rparr>" by blast
      have "i = a"
      proof (rule ccontr)
        assume "i \<noteq> a"
        with h(1) have "a < i" by simp
        with h(3) have "run U ic s r (a, None) = []" by simp
        with Cons show False by simp
      qed
      with h Cons x 1 show "first_match U ic r s [a ..< b] = Some m" by simp
    qed
  qed
qed

lemma search_None_iff:
  "search U ic r s = None \<longleftrightarrow> (\<forall>i \<le> length s. run U ic s r (i, None) = [])"
  by (auto simp: search_def first_match_None_iff less_Suc_eq_le)

lemma search_Some_iff:
  "search U ic r s = Some m \<longleftrightarrow>
     (\<exists>i j g rest. i \<le> length s \<and> (\<forall>k < i. run U ic s r (k, None) = []) \<and>
        run U ic s r (i, None) = (j, g) # rest \<and> m = \<lparr>m_start = i, m_end = j, m_group1 = g\<rparr>)"
  unfolding search_def first_match_upt_Some by (simp add: less_Suc_eq_le)

lemma sub_iff_occurs:
  "i \<le> j \<Longrightarrow> j \<le> length s \<Longrightarrow> sub s i j = t \<longleftrightarrow> (occurs_at s i t \<and> j = i + length t)"
  by (auto simp: sub_def occurs_at_def)

lemma occurs_at_bound: "occurs_at s i t \<Longrightarrow> i + length t \<le> length s"
proof -
  assume a: "occurs_at s i t"
  then have "length (take (length t) (drop i s)) = length t" by (simp add: occurs_at_def)
  then have "min (length t) (length s - i) = length t" by simp
  with a show ?thesis by (simp add: occurs_at_def min_def split: if_splits)
qed

lemma occurs_at_sub: "occurs_at s i t \<Longrightarrow> sub s i (i + length t) = t"
  by (simp add: sub_def occurs_at_def)

lemma occurs_at_append:
  "occurs_at s i (x @ y) \<longleftrightarrow> occurs_at s i x \<and> occurs_at s (i + length x) y"
proof
  assume a: "occurs_at s i (x @ y)"
  then have b: "i + length x + length y \<le> length s" using occurs_at_bound by fastforce
  from a have "sub s i (i + length x + length y) = x @ y" using occurs_at_sub [of s i "x @ y"] by (simp add: add.assoc)
  moreover have "sub s i (i + length x) @ sub s (i + length x) (i + length x + length y) = sub s i (i + length x + length y)"
    by (rule sub_split) simp_all
  moreover have "length (sub s i (i + length x)) = length x" using b by (simp add: length_sub)
  ultimately have "sub s i (i + length x) = x" "sub s (i + length x) (i + length x + length y) = y" by auto
  with b show "occurs_at s i x \<and> occurs_at s (i + length x) y"
    using sub_iff_occurs [of i "i + length x" s x] sub_iff_occurs [of "i + length x" "i + length x + length y" s y] by simp
next
  assume a: "occurs_at s i x \<and> occurs_at s (i + length x) y"
  then have b: "i + length x + length y \<le> length s" using occurs_at_bound [of s "i + length x" y] by simp
  from a have "sub s i (i + length x) = x" "sub s (i + length x) (i + length x + length y) = y"
    using occurs_at_sub by blast+
  moreover have "sub s i (i + length x) @ sub s (i + length x) (i + length x + length y) = sub s i (i + length x + length y)"
    by (rule sub_split) simp_all
  ultimately have "sub s i (i + length x + length y) = x @ y" by simp
  then show "occurs_at s i (x @ y)"
    using b sub_iff_occurs [of i "i + length x + length y" s "x @ y"] by simp
qed

lemma run_plain:
  assumes "plain r" "ungrouped r" "i \<le> length s"
  shows "(j, g') \<in> set (run U ic s r (i, g)) \<longleftrightarrow>
         (g' = g \<and> i \<le> j \<and> j \<le> length s \<and> sub s i j \<in> lang U ic r)"
  using ends_lang [OF assms(1,3), of j U ic g] ungrouped_keeps [OF assms(2), of j _ U ic s i g]
  by blast

lemma run_group:
  assumes "plain r" "i \<le> length s"
  shows "(k, g0) \<in> set (run U ic s (Group r) (i, g)) \<longleftrightarrow>
         (g0 = Some (i, k) \<and> i \<le> k \<and> k \<le> length s \<and> sub s i k \<in> lang U ic r)"
proof -
  have "(k, g0) \<in> set (run U ic s (Group r) (i, g)) \<longleftrightarrow>
        (g0 = Some (i, k) \<and> (\<exists>g'. (k, g') \<in> set (run U ic s r (i, g))))"
    by (auto simp: image_iff split: prod.splits)
  then show ?thesis using ends_lang [OF assms, of k U ic g] by simp
qed

lemma in_run_Seq:
  "st' \<in> set (run U ic s (Seq r1 r2) st) \<longleftrightarrow> (\<exists>m \<in> set (run U ic s r1 st). st' \<in> set (run U ic s r2 m))"
  by auto

lemma run_group_seq:
  assumes "plain r1" "plain r2" "ungrouped r2" "i \<le> length s"
  shows "(j, g') \<in> set (run U ic s (Seq (Group r1) r2) (i, g)) \<longleftrightarrow>
         (\<exists>k. g' = Some (i, k) \<and> i \<le> k \<and> k \<le> j \<and> j \<le> length s
              \<and> sub s i k \<in> lang U ic r1 \<and> sub s k j \<in> lang U ic r2)"
proof -
  have "(j, g') \<in> set (run U ic s (Seq (Group r1) r2) (i, g)) \<longleftrightarrow>
        (\<exists>k g0. (k, g0) \<in> set (run U ic s (Group r1) (i, g)) \<and> (j, g') \<in> set (run U ic s r2 (k, g0)))"
    by (simp only: in_run_Seq Bex_def split_paired_Ex)
  also have "\<dots> \<longleftrightarrow> (\<exists>k. i \<le> k \<and> k \<le> length s \<and> sub s i k \<in> lang U ic r1
        \<and> (j, g') \<in> set (run U ic s r2 (k, Some (i, k))))"
    unfolding run_group [OF assms(1,4)] by blast
  also have "\<dots> \<longleftrightarrow> (\<exists>k. g' = Some (i, k) \<and> i \<le> k \<and> k \<le> j \<and> j \<le> length s
              \<and> sub s i k \<in> lang U ic r1 \<and> sub s k j \<in> lang U ic r2)"
    (is "?L \<longleftrightarrow> ?R")
  proof
    assume ?L
    then obtain k where k: "i \<le> k" "k \<le> length s" "sub s i k \<in> lang U ic r1"
        "(j, g') \<in> set (run U ic s r2 (k, Some (i, k)))" by blast
    from k(4) have "g' = Some (i, k) \<and> k \<le> j \<and> j \<le> length s \<and> sub s k j \<in> lang U ic r2"
      using run_plain [OF assms(2,3) k(2), of j g' U ic "Some (i, k)"] by simp
    with k show ?R by blast
  next
    assume ?R
    then obtain k where k: "g' = Some (i, k)" "i \<le> k" "k \<le> j" "j \<le> length s"
        "sub s i k \<in> lang U ic r1" "sub s k j \<in> lang U ic r2" by blast
    then have kl: "k \<le> length s" by simp
    from k have "(j, g') \<in> set (run U ic s r2 (k, Some (i, k)))"
      using run_plain [OF assms(2,3) kl, of j g' U ic "Some (i, k)"] by simp
    with k kl show ?L by blast
  qed
  finally show ?thesis .
qed

lemma run_WordB_seq:
  "st' \<in> set (run U ic s (Seq WordB r) (i, g)) \<longleftrightarrow> (at_boundary U s i \<and> st' \<in> set (run U ic s r (i, g)))"
  by simp

lemma temp_re_eq: "temp_re = Seq (Group temp_num_re) temp_tail_re"
  by (simp add: temp_re_def temp_num_re_def temp_tail_re_def)

lemma ts_re_eq: "ts_re = Seq WordB (Seq (Group ts_core_re) WordB)"
  by (simp add: ts_re_def ts_core_re_def)

section \<open>The temperature\<close>

lemma lang_temp_num:
  "x \<in> lang U False temp_num_re \<longleftrightarrow>
     (\<exists>sg ip fp. x = sg @ ip @ fp \<and> (sg = [] \<or> sg = [0x2D]) \<and> ip \<noteq> [] \<and> list_all (is_digit U) ip
        \<and> (fp = [] \<or> (\<exists>fd. fp = 0x2E # fd \<and> fd \<noteq> [] \<and> list_all (is_digit U) fd)))"
proof -
  have 1: "sg \<in> lang U False (Opt (One (Lit 0x2D))) \<longleftrightarrow> (sg = [] \<or> sg = [0x2D])" for sg
    by auto
  have 2: "ip \<in> lang U False (Plus Digit) \<longleftrightarrow> (ip \<noteq> [] \<and> list_all (is_digit U) ip)" for ip
  proof -
    have "atom_ok U False Digit = is_digit U" by (rule ext) simp
    then show ?thesis by simp
  qed
  have 3: "fp \<in> lang U False (Opt (Seq (One (Lit 0x2E)) (Plus Digit))) \<longleftrightarrow>
      (fp = [] \<or> (\<exists>fd. fp = 0x2E # fd \<and> fd \<noteq> [] \<and> list_all (is_digit U) fd))" for fp
  proof -
    have "fp \<in> lang U False (Opt (Seq (One (Lit 0x2E)) (Plus Digit))) \<longleftrightarrow>
       (fp = [] \<or> (\<exists>x y. fp = x @ y \<and> x = [0x2E] \<and> y \<in> lang U False (Plus Digit)))"
      by auto
    also have "\<dots> \<longleftrightarrow> (fp = [] \<or> (\<exists>fd. fp = 0x2E # fd \<and> fd \<noteq> [] \<and> list_all (is_digit U) fd))"
      unfolding 2 by auto
    finally show ?thesis .
  qed
  have "x \<in> lang U False temp_num_re \<longleftrightarrow>
      (\<exists>sg r. x = sg @ r \<and> sg \<in> lang U False (Opt (One (Lit 0x2D))) \<and>
         (\<exists>ip fp. r = ip @ fp \<and> ip \<in> lang U False (Plus Digit) \<and> fp \<in> lang U False (Opt (Seq (One (Lit 0x2E)) (Plus Digit)))))"
    by (simp add: temp_num_re_def del: lang.simps(1,4,5) add: lang.simps(6))
  also have "\<dots> \<longleftrightarrow> (\<exists>sg ip fp. x = sg @ ip @ fp \<and> (sg = [] \<or> sg = [0x2D]) \<and> ip \<noteq> [] \<and> list_all (is_digit U) ip
        \<and> (fp = [] \<or> (\<exists>fd. fp = 0x2E # fd \<and> fd \<noteq> [] \<and> list_all (is_digit U) fd)))"
    unfolding 1 2 3 by blast
  finally show ?thesis .
qed

lemma lang_temp_tail:
  "y \<in> lang U False temp_tail_re \<longleftrightarrow>
     (\<exists>w1 w2. y = w1 @ [0xB0] @ w2 @ [0x43] \<and> list_all (is_space U) w1 \<and> list_all (is_space U) w2)"
proof -
  have sp: "atom_ok U False Space = is_space U" by (rule ext) simp
  have "y \<in> lang U False temp_tail_re \<longleftrightarrow>
     (\<exists>w1 r. y = w1 @ r \<and> list_all (is_space U) w1 \<and> (\<exists>a r2. r = a @ r2 \<and> a = [0xB0] \<and>
        (\<exists>w2 c. r2 = w2 @ c \<and> list_all (is_space U) w2 \<and> c = [0x43])))"
    by (simp add: temp_tail_re_def sp)
  also have "\<dots> \<longleftrightarrow> (\<exists>w1 w2. y = w1 @ [0xB0] @ w2 @ [0x43] \<and> list_all (is_space U) w1 \<and> list_all (is_space U) w2)"
    by blast
  finally show ?thesis .
qed

lemma temp_shape_lang:
  "temp_shape U num t \<longleftrightarrow>
     (\<exists>y. t = num @ y \<and> num \<in> lang U False temp_num_re \<and> y \<in> lang U False temp_tail_re)"
  unfolding temp_shape_def lang_temp_num lang_temp_tail by blast

lemma plain_temp [simp]:
  "plain temp_num_re" "plain temp_tail_re" "ungrouped temp_tail_re"
  by (simp_all add: temp_num_re_def temp_tail_re_def)

lemma temp_run_iff:
  assumes "i \<le> length s"
  shows "(j, g') \<in> set (run U False s temp_re (i, g)) \<longleftrightarrow>
         (\<exists>k. g' = Some (i, k) \<and> i \<le> k \<and> k \<le> j \<and> j \<le> length s
              \<and> sub s i k \<in> lang U False temp_num_re \<and> sub s k j \<in> lang U False temp_tail_re)"
  unfolding temp_re_eq by (rule run_group_seq) (simp_all add: assms)

lemma temp_occurrence_run:
  "(\<exists>num t. occurs_at s i t \<and> temp_shape U num t) \<longleftrightarrow> (i \<le> length s \<and> run U False s temp_re (i, None) \<noteq> [])"
proof
  assume "\<exists>num t. occurs_at s i t \<and> temp_shape U num t"
  then obtain num y where o: "occurs_at s i (num @ y)" and n: "num \<in> lang U False temp_num_re"
      and y: "y \<in> lang U False temp_tail_re"
    unfolding temp_shape_lang by blast
  from o have il: "i \<le> length s" by (simp add: occurs_at_def)
  from o have o2: "occurs_at s i num" "occurs_at s (i + length num) y" by (simp_all add: occurs_at_append)
  define k where "k = i + length num"
  define j where "j = k + length y"
  have jl: "j \<le> length s" using occurs_at_bound [OF o2(2)] by (simp add: j_def k_def)
  have "sub s i k = num" "sub s k j = y" using o2 occurs_at_sub by (auto simp: k_def j_def)
  with n y jl have "(j, Some (i, k)) \<in> set (run U False s temp_re (i, None))"
    unfolding temp_run_iff [OF il] by (auto simp: k_def j_def)
  then have "run U False s temp_re (i, None) \<noteq> []" by auto
  with il show "i \<le> length s \<and> run U False s temp_re (i, None) \<noteq> []" by simp
next
  assume a: "i \<le> length s \<and> run U False s temp_re (i, None) \<noteq> []"
  then obtain j g' where "(j, g') \<in> set (run U False s temp_re (i, None))"
    by (cases "run U False s temp_re (i, None)") auto
  then obtain k where k: "i \<le> k" "k \<le> j" "j \<le> length s" "sub s i k \<in> lang U False temp_num_re"
      "sub s k j \<in> lang U False temp_tail_re"
    using a temp_run_iff [of i s j g' U None] by blast
  have "sub s i j = sub s i k @ sub s k j" using k by (simp add: sub_split)
  moreover have "occurs_at s i (sub s i j)" using k sub_iff_occurs [of i j s "sub s i j"] by simp
  ultimately show "\<exists>num t. occurs_at s i t \<and> temp_shape U num t"
    unfolding temp_shape_lang using k by blast
qed

lemma append_run_unique:
  assumes "list_all P a" "list_all P a'" "b = [] \<or> \<not> P (hd b)" "b' = [] \<or> \<not> P (hd b')"
    and "a @ b = a' @ b'"
  shows "a = a' \<and> b = b'"
proof -
  have "takeWhile P (a @ b) = a"
    using assms(1,3) by (cases b) (auto simp: list_all_iff takeWhile_append2)
  moreover have "takeWhile P (a' @ b') = a'"
    using assms(2,4) by (cases b') (auto simp: list_all_iff takeWhile_append2)
  ultimately have "a = a'" using assms(5) by simp
  with assms(5) show ?thesis by simp
qed

lemma not_digit_ascii [simp]:
  "\<not> is_digit U 0x2D" "\<not> is_digit U 0x2B" "\<not> is_digit U 0x2E" "\<not> is_digit U 0x43"
  by (simp_all add: is_digit_def digit_value_def)

lemma not_space_ascii [simp]: "\<not> is_space U 0x2E" "\<not> is_space U 0x2D"
  by (simp_all add: is_space_def)

lemma wf_digit_space: "wf_ucd U \<Longrightarrow> is_digit U c \<Longrightarrow> \<not> is_space U c"
  by (simp add: wf_ucd_def)

lemma wf_degree: "wf_ucd U \<Longrightarrow> \<not> is_digit U 0xB0"
  by (simp add: wf_ucd_def)

lemma tail_head:
  assumes "wf_ucd U" "y \<in> lang U False temp_tail_re"
  shows "y @ r \<noteq> [] \<and> \<not> is_digit U (hd (y @ r)) \<and> hd (y @ r) \<noteq> 0x2E"
proof -
  from assms(2) obtain w1 w2 where y: "y = w1 @ [0xB0] @ w2 @ [0x43]" "list_all (is_space U) w1"
    unfolding lang_temp_tail by blast
  show ?thesis
  proof (cases w1)
    case Nil
    with y assms(1) show ?thesis by (simp add: wf_degree)
  next
    case (Cons c w)
    with y have "is_space U c" by simp
    then have "\<not> is_digit U c" "c \<noteq> 0x2E" using wf_digit_space [OF assms(1), of c] by auto
    with y Cons show ?thesis by simp
  qed
qed

lemma temp_num_unique:
  assumes wf: "wf_ucd U"
    and n: "x \<in> lang U False temp_num_re" "x' \<in> lang U False temp_num_re"
    and y: "y \<in> lang U False temp_tail_re" "y' \<in> lang U False temp_tail_re"
    and eq: "x @ y @ r = x' @ y' @ r'"
  shows "x = x'"
proof -
  from n(1) obtain sg ip fp where x: "x = sg @ ip @ fp" "sg = [] \<or> sg = [0x2D]" "ip \<noteq> []"
      "list_all (is_digit U) ip" "fp = [] \<or> (\<exists>fd. fp = 0x2E # fd \<and> fd \<noteq> [] \<and> list_all (is_digit U) fd)"
    unfolding lang_temp_num by blast
  from n(2) obtain sg' ip' fp' where x': "x' = sg' @ ip' @ fp'" "sg' = [] \<or> sg' = [0x2D]" "ip' \<noteq> []"
      "list_all (is_digit U) ip'" "fp' = [] \<or> (\<exists>fd. fp' = 0x2E # fd \<and> fd \<noteq> [] \<and> list_all (is_digit U) fd)"
    unfolding lang_temp_num by blast
  note th = tail_head [OF wf y(1), of r] and th' = tail_head [OF wf y(2), of r']
  have hip: "is_digit U (hd ip)" "is_digit U (hd ip')" using x(3,4) x'(3,4) by (cases ip; cases ip'; simp)+
  then have hne: "hd ip \<noteq> 0x2D" "hd ip' \<noteq> 0x2D" by auto
  have sg: "sg = sg'"
  proof (rule ccontr)
    assume ne: "sg \<noteq> sg'"
    from eq x(1) x'(1) have e: "hd (sg @ ip @ fp @ y @ r) = hd (sg' @ ip' @ fp' @ y' @ r')" by simp
    from ne x(2) x'(2) consider "sg = []" "sg' = [0x2D]" | "sg = [0x2D]" "sg' = []" by blast
    then show False
    proof cases
      case 1
      with e x(3) have "hd ip = 0x2D" by (cases ip) auto
      with hne show False by simp
    next
      case 2
      with e x'(3) have "hd ip' = 0x2D" by (cases ip') auto
      with hne show False by simp
    qed
  qed
  have rest: "ip @ (fp @ y @ r) = ip' @ (fp' @ y' @ r')" using eq x(1) x'(1) sg by simp
  have b: "fp @ y @ r = [] \<or> \<not> is_digit U (hd (fp @ y @ r))"
    using x(5) th by (cases fp) auto
  have b': "fp' @ y' @ r' = [] \<or> \<not> is_digit U (hd (fp' @ y' @ r'))"
    using x'(5) th' by (cases fp') auto
  from append_run_unique [OF x(4) x'(4) b b' rest]
  have ip: "ip = ip'" and rest2: "fp @ y @ r = fp' @ y' @ r'" by simp_all
  have fp: "fp = fp'"
  proof (cases fp)
    case Nil
    show ?thesis
    proof (cases fp')
      case Nil
      with \<open>fp = []\<close> show ?thesis by simp
    next
      case (Cons c fd)
      with x'(5) have "c = 0x2E" by auto
      with Cons Nil rest2 have "hd (y @ r) = 0x2E" by simp
      with th show ?thesis by simp
    qed
  next
    case (Cons c fd)
    with x(5) have c: "c = 0x2E" "fd \<noteq> []" "list_all (is_digit U) fd" by auto
    show ?thesis
    proof (cases fp')
      case Nil
      with Cons c rest2 have "hd (y' @ r') = 0x2E" by (metis append_Nil hd_append2 list.sel(1) list.simps(3))
      with th' show ?thesis by simp
    next
      case (Cons c' fd')
      with x'(5) have c': "c' = 0x2E" "fd' \<noteq> []" "list_all (is_digit U) fd'" by auto
      from rest2 \<open>fp = c # fd\<close> Cons c(1) c'(1) have e: "fd @ (y @ r) = fd' @ (y' @ r')" by simp
      have "fd = fd'"
        using append_run_unique [OF c(3) c'(3) _ _ e] th th' by blast
      with \<open>fp = c # fd\<close> Cons c(1) c'(1) show ?thesis by simp
    qed
  qed
  from sg ip fp x(1) x'(1) show ?thesis by simp
qed

lemma takeWhile_digits:
  assumes "list_all (is_digit U) ip" "b = [] \<or> \<not> is_digit U (hd b)"
  shows "takeWhile (is_digit U) (ip @ b) = ip" "dropWhile (is_digit U) (ip @ b) = b"
proof -
  show "takeWhile (is_digit U) (ip @ b) = ip"
    using assms by (cases b) (auto simp: list_all_iff takeWhile_append2)
  show "dropWhile (is_digit U) (ip @ b) = b"
    using assms by (cases b) (auto simp: list_all_iff dropWhile_append2)
qed

lemma py_float_body:
  assumes ip: "list_all (is_digit U) ip" "ip \<noteq> []" and fd: "list_all (is_digit U) fd"
    and bd: "bd = ip @ (if fd = [] then [] else 0x2E # fd)"
  shows "(let ip = takeWhile (is_digit U) bd;
              rest = dropWhile (is_digit U) bd;
              (fp, rest') = (case rest of
                  [] \<Rightarrow> ([], [])
                | c # r \<Rightarrow> if c = 0x2E then (takeWhile (is_digit U) r, dropWhile (is_digit U) r)
                           else ([], rest))
          in if rest' \<noteq> [] \<or> (ip = [] \<and> fp = []) then Inl ValueError
             else Inr (round_binary64 neg (digits_val U (ip @ fp)) (10 ^ length fp)))
         = Inr (round_binary64 neg (digits_val U (ip @ fd)) (10 ^ length fd))"
proof (cases "fd = []")
  case True
  have 1: "takeWhile (is_digit U) bd = ip" "dropWhile (is_digit U) bd = []"
    using takeWhile_digits [OF ip(1), of "[]"] bd True by simp_all
  show ?thesis unfolding 1 Let_def using ip(2) True by simp
next
  case False
  have 1: "takeWhile (is_digit U) bd = ip" "dropWhile (is_digit U) bd = 0x2E # fd"
    using takeWhile_digits [OF ip(1), of "0x2E # fd"] bd False by simp_all
  have 2: "takeWhile (is_digit U) fd = fd" "dropWhile (is_digit U) fd = []"
    using takeWhile_digits [OF fd, of "[]"] by simp_all
  show ?thesis unfolding 1 Let_def list.case using ip(2) by (simp only: 2 if_True) simp
qed

lemma py_float_unsigned:
  assumes ip: "list_all (is_digit U) ip" "ip \<noteq> []" and fd: "list_all (is_digit U) fd"
  shows "py_float U (ip @ (if fd = [] then [] else 0x2E # fd)) =
           Inr (round_binary64 False (digits_val U (ip @ fd)) (10 ^ length fd))"
proof -
  define bd where "bd = ip @ (if fd = [] then [] else 0x2E # fd)"
  obtain c r where c: "ip = c # r" using ip(2) by (cases ip) auto
  with ip(1) have "is_digit U c" by simp
  then have cne: "c \<noteq> 0x2D" "c \<noteq> 0x2B" by auto
  have b: "bd = c # (r @ (if fd = [] then [] else 0x2E # fd))" by (simp add: bd_def c)
  have "(case bd of [] \<Rightarrow> (False, [])
          | c # r \<Rightarrow> if c = 0x2D then (True, r) else if c = 0x2B then (False, r) else (False, bd)) = (False, bd)"
    using cne by (subst (1) b) simp
  then have "py_float U bd =
     (let ip = takeWhile (is_digit U) bd;
              rest = dropWhile (is_digit U) bd;
              (fp, rest') = (case rest of
                  [] \<Rightarrow> ([], [])
                | c # r \<Rightarrow> if c = 0x2E then (takeWhile (is_digit U) r, dropWhile (is_digit U) r)
                           else ([], rest))
          in if rest' \<noteq> [] \<or> (ip = [] \<and> fp = []) then Inl ValueError
             else Inr (round_binary64 False (digits_val U (ip @ fp)) (10 ^ length fp)))"
    unfolding py_float_def by (simp only: Let_def prod.case)
  also have "\<dots> = Inr (round_binary64 False (digits_val U (ip @ fd)) (10 ^ length fd))"
    by (rule py_float_body [OF ip fd bd_def])
  finally show ?thesis by (simp only: bd_def)
qed

lemma py_float_signed:
  assumes ip: "list_all (is_digit U) ip" "ip \<noteq> []" and fd: "list_all (is_digit U) fd"
  shows "py_float U (0x2D # ip @ (if fd = [] then [] else 0x2E # fd)) =
           Inr (round_binary64 True (digits_val U (ip @ fd)) (10 ^ length fd))"
proof -
  define bd where "bd = ip @ (if fd = [] then [] else 0x2E # fd)"
  have "py_float U (0x2D # bd) =
     (let ip = takeWhile (is_digit U) bd;
              rest = dropWhile (is_digit U) bd;
              (fp, rest') = (case rest of
                  [] \<Rightarrow> ([], [])
                | c # r \<Rightarrow> if c = 0x2E then (takeWhile (is_digit U) r, dropWhile (is_digit U) r)
                           else ([], rest))
          in if rest' \<noteq> [] \<or> (ip = [] \<and> fp = []) then Inl ValueError
             else Inr (round_binary64 True (digits_val U (ip @ fp)) (10 ^ length fp)))"
    unfolding py_float_def by (simp only: Let_def prod.case list.case if_True refl)
  also have "\<dots> = Inr (round_binary64 True (digits_val U (ip @ fd)) (10 ^ length fd))"
    by (rule py_float_body [OF ip fd bd_def])
  finally show ?thesis by (simp only: bd_def)
qed

lemma round_binary64_cases:
  "round_binary64 neg n d =
     (if n = 0 then Finite neg 0
      else if 2 ^ 1024 - 2 ^ 970 \<le> (of_nat n / of_nat d :: rat) then Infinite neg
      else Finite neg (of_int (round_half_even ((of_nat n / of_nat d) / 2 powi (max (ilog2 n d) (- 1022) - 52)))
                        * 2 powi (max (ilog2 n d) (- 1022) - 52)))"
  by (simp only: round_binary64_def Let_def)

lemma round_binary64_not_nan: "round_binary64 neg n d \<noteq> NaN"
  by (simp add: round_binary64_cases)

lemma round_binary64_infinite_iff:
  "(\<exists>b. round_binary64 neg n d = Infinite b) \<longleftrightarrow> (n \<noteq> 0 \<and> 2 ^ 1024 - 2 ^ 970 \<le> (of_nat n / of_nat d :: rat))"
  by (simp add: round_binary64_cases)

lemma round_binary64_sign:
  "round_binary64 neg n d = Finite b x \<Longrightarrow> b = neg" "round_binary64 neg n d = Infinite b \<Longrightarrow> b = neg"
  by (simp_all add: round_binary64_cases split: if_splits)

text \<open>The numeric portion of the specification and its float.\<close>

lemma py_float_num:
  assumes "x \<in> lang U False temp_num_re"
  shows "\<exists>neg ip fd. x = (if neg then [0x2D] else []) @ ip @ (if fd = [] then [] else 0x2E # fd)
           \<and> ip \<noteq> [] \<and> list_all (is_digit U) ip \<and> list_all (is_digit U) fd
           \<and> py_float U x = Inr (round_binary64 neg (digits_val U (ip @ fd)) (10 ^ length fd))"
proof -
  from assms obtain sg ip fp where x: "x = sg @ ip @ fp" "sg = [] \<or> sg = [0x2D]" "ip \<noteq> []"
      "list_all (is_digit U) ip" "fp = [] \<or> (\<exists>fd. fp = 0x2E # fd \<and> fd \<noteq> [] \<and> list_all (is_digit U) fd)"
    unfolding lang_temp_num by blast
  have "\<exists>fd. fp = (if fd = [] then [] else 0x2E # fd) \<and> list_all (is_digit U) fd"
  proof (cases "fp = []")
    case True
    then show ?thesis by (intro exI [of _ "[]"]) simp
  next
    case False
    with x(5) obtain fd where "fp = 0x2E # fd" "fd \<noteq> []" "list_all (is_digit U) fd" by blast
    then show ?thesis by (intro exI [of _ fd]) simp
  qed
  then obtain fd where fd: "fp = (if fd = [] then [] else 0x2E # fd)" "list_all (is_digit U) fd"
    by blast
  show ?thesis
  proof (cases "sg = []")
    case True
    have "py_float U x = Inr (round_binary64 False (digits_val U (ip @ fd)) (10 ^ length fd))"
      using py_float_unsigned [OF x(4,3) fd(2)] x(1) True fd(1) by simp
    with x fd True show ?thesis
      by - (rule exI [of _ False], rule exI [of _ ip], rule exI [of _ fd], simp)
  next
    case False
    with x(2) have sg: "sg = [0x2D]" by simp
    have "py_float U x = Inr (round_binary64 True (digits_val U (ip @ fd)) (10 ^ length fd))"
      using py_float_signed [OF x(4,3) fd(2)] x(1) sg fd(1) by simp
    with x fd sg show ?thesis
      by - (rule exI [of _ True], rule exI [of _ ip], rule exI [of _ fd], simp)
  qed
qed

lemma temp_search_Some:
  assumes "search U False temp_re s = Some m"
  shows "\<exists>i k j. m_start m = i \<and> m_group1 m = Some (i, k) \<and> i \<le> k \<and> k \<le> j \<and> j \<le> length s
           \<and> sub s i k \<in> lang U False temp_num_re \<and> sub s k j \<in> lang U False temp_tail_re
           \<and> group1 s m = Some (sub s i k)
           \<and> (\<forall>i' < i. run U False s temp_re (i', None) = [])"
proof -
  from assms obtain i j g rest where h: "i \<le> length s" "\<forall>k < i. run U False s temp_re (k, None) = []"
      "run U False s temp_re (i, None) = (j, g) # rest" "m = \<lparr>m_start = i, m_end = j, m_group1 = g\<rparr>"
    unfolding search_Some_iff by blast
  from h(3) have "(j, g) \<in> set (run U False s temp_re (i, None))" by simp
  then obtain k where k: "g = Some (i, k)" "i \<le> k" "k \<le> j" "j \<le> length s"
      "sub s i k \<in> lang U False temp_num_re" "sub s k j \<in> lang U False temp_tail_re"
    unfolding temp_run_iff [OF h(1)] by blast
  have "group1 s m = Some (sub s i k)" using h(4) k(1) by (simp add: group1_def sub_def)
  with h k show ?thesis by (intro exI [of _ i] exI [of _ k] exI [of _ j]) simp
qed

lemma temp_search_None_iff:
  "search U False temp_re s = None \<longleftrightarrow> (\<forall>i num t. \<not> (occurs_at s i t \<and> temp_shape U num t))"
proof -
  have "search U False temp_re s = None \<longleftrightarrow> (\<forall>i. \<not> (i \<le> length s \<and> run U False s temp_re (i, None) \<noteq> []))"
    unfolding search_None_iff by blast
  also have "\<dots> \<longleftrightarrow> (\<forall>i. \<not> (\<exists>num t. occurs_at s i t \<and> temp_shape U num t))"
    unfolding temp_occurrence_run ..
  finally show ?thesis by blast
qed

lemma extract_latest_temp_None:
  assumes "search U False temp_re s = None"
  shows "extract_latest U s =
     Inr (None, (case search U False ts_re s of None \<Rightarrow> None | Some m \<Rightarrow> group1 s m),
          (if search U True ok_re s \<noteq> None then Some (str ''Everything ok'') else None))"
  using assms by (simp add: extract_latest_def Let_def)

lemma extract_latest_temp_Some:
  assumes "search U False temp_re s = Some m" "group1 s m = Some g" "py_float U g = Inr v"
  shows "extract_latest U s =
     Inr (Some v, (case search U False ts_re s of None \<Rightarrow> None | Some m \<Rightarrow> group1 s m),
          (if search U True ok_re s \<noteq> None then Some (str ''Everything ok'') else None))"
  using assms by (simp add: extract_latest_def Let_def)

lemma extract_latest_total:
  "\<exists>temp. temp \<noteq> Some NaN \<and> extract_latest U s =
     Inr (temp, (case search U False ts_re s of None \<Rightarrow> None | Some m \<Rightarrow> group1 s m),
          (if search U True ok_re s \<noteq> None then Some (str ''Everything ok'') else None))"
proof (cases "search U False temp_re s")
  case None
  then show ?thesis using extract_latest_temp_None [OF None] by simp
next
  case (Some m)
  from temp_search_Some [OF Some] obtain i k where k: "sub s i k \<in> lang U False temp_num_re"
      "group1 s m = Some (sub s i k)" by blast
  from py_float_num [OF k(1)] obtain v where v: "py_float U (sub s i k) = Inr v" "v \<noteq> NaN"
    using round_binary64_not_nan by metis
  show ?thesis using extract_latest_temp_Some [OF Some k(2) v(1)] v(2) by simp
qed

lemma temp_first_occurrence:
  assumes wf: "wf_ucd U" and o: "occurs_at s i t" "temp_shape U num t"
    and first: "\<forall>j < i. \<forall>n' t'. \<not> (occurs_at s j t' \<and> temp_shape U n' t')"
  shows "\<exists>m. search U False temp_re s = Some m \<and> m_start m = i \<and> group1 s m = Some num"
proof -
  have ne: "i \<le> length s" "run U False s temp_re (i, None) \<noteq> []"
    using o temp_occurrence_run [of s i U] by blast+
  have emp: "\<forall>j < i. run U False s temp_re (j, None) = []"
  proof (intro allI impI)
    fix j assume "j < i"
    with first have "\<not> (\<exists>n' t'. occurs_at s j t' \<and> temp_shape U n' t')" by blast
    moreover from \<open>j < i\<close> ne have "j \<le> length s" by simp
    ultimately show "run U False s temp_re (j, None) = []" unfolding temp_occurrence_run by simp
  qed
  from ne(2) obtain j g rest where r: "run U False s temp_re (i, None) = (j, g) # rest"
    by (cases "run U False s temp_re (i, None)") auto
  define m where "m = \<lparr>m_start = i, m_end = j, m_group1 = g\<rparr>"
  have sm: "search U False temp_re s = Some m"
    unfolding search_Some_iff using ne(1) emp r m_def by blast
  from temp_search_Some [OF sm] obtain k j' where k: "i \<le> k" "k \<le> j'" "j' \<le> length s"
      "sub s i k \<in> lang U False temp_num_re" "sub s k j' \<in> lang U False temp_tail_re"
      "group1 s m = Some (sub s i k)"
    by (auto simp: m_def)
  from o(2) obtain y where y: "t = num @ y" "num \<in> lang U False temp_num_re" "y \<in> lang U False temp_tail_re"
    unfolding temp_shape_lang by blast
  have d1: "drop i s = num @ y @ drop (i + length t) s"
  proof -
    have "drop i s = take (length t) (drop i s) @ drop (length t) (drop i s)"
      by (simp only: append_take_drop_id)
    also have "drop (length t) (drop i s) = drop (i + length t) s" by (simp add: add.commute)
    also have "take (length t) (drop i s) = t" using o(1) by (simp add: occurs_at_def)
    finally show ?thesis using y(1) by simp
  qed
  have d2: "drop i s = sub s i k @ sub s k j' @ drop j' s"
  proof -
    have "sub s i k @ sub s k j' = sub s i j'" using k by (simp add: sub_split)
    moreover have "sub s i j' @ drop j' s = drop i s"
    proof -
      have "drop j' s = drop (j' - i) (drop i s)" using k by simp
      then show ?thesis unfolding sub_def by (simp only: append_take_drop_id)
    qed
    ultimately show ?thesis by (metis append_assoc)
  qed
  have "sub s i k = num"
    using temp_num_unique [OF wf k(4) y(2) k(5) y(3), of "drop j' s" "drop (i + length t) s"] d1 d2 by simp
  with k(6) sm show ?thesis by (simp add: m_def)
qed

lemma ex_float_7: "round_binary64 False 700 100 = Finite False 7"
  by (simp add: round_binary64_cases ilog2_def compute_floorlog round_half_even_def power_int_minus Let_def)

lemma ex_float_2: "round_binary64 True 2 (Suc 0) = Finite True 2"
  by (simp add: round_binary64_cases ilog2_def compute_floorlog round_half_even_def power_int_minus Let_def)

lemma ex_float_10: "round_binary64 False 10 (Suc 0) = Finite False 10"
  by (simp add: round_binary64_cases ilog2_def compute_floorlog round_half_even_def power_int_minus Let_def)

lemma wf_ascii_ucd: "wf_ucd ascii_ucd"
  by (simp add: wf_ucd_def ascii_ucd_def is_digit_def digit_value_def is_space_def)

lemma temp_at_start:
  assumes wf: "wf_ucd U" and sh: "temp_shape U num t" and f: "py_float U num = Inr v"
  shows "\<exists>ts st. extract_latest U (t @ post) = Inr (Some v, ts, st)"
proof -
  have o: "occurs_at (t @ post) 0 t" by (simp add: occurs_at_def)
  from temp_first_occurrence [OF wf o sh] obtain m where
    m: "search U False temp_re (t @ post) = Some m" "group1 (t @ post) m = Some num" by auto
  show ?thesis using extract_latest_temp_Some [OF m f] by blast
qed

lemma py_float_text:
  assumes "ip \<noteq> []" "list_all (is_digit U) ip" "list_all (is_digit U) fd"
  shows "py_float U ((if neg then [0x2D] else []) @ ip @ (if fd = [] then [] else 0x2E # fd)) =
           Inr (round_binary64 neg (digits_val U (ip @ fd)) (10 ^ length fd))"
  using py_float_unsigned [OF assms(2,1,3)] py_float_signed [OF assms(2,1,3)] by simp

lemma temp_shape_text:
  assumes "ip \<noteq> []" "list_all (is_digit U) ip" "list_all (is_digit U) fd"
    "list_all (is_space U) w1" "list_all (is_space U) w2"
  shows "temp_shape U ((if neg then [0x2D] else []) @ ip @ (if fd = [] then [] else 0x2E # fd))
           (((if neg then [0x2D] else []) @ ip @ (if fd = [] then [] else 0x2E # fd)) @ w1 @ [0xB0] @ w2 @ [0x43])"
  unfolding temp_shape_def
  by (rule exI [of _ "if neg then [0x2D] else []"], rule exI [of _ ip],
      rule exI [of _ "if fd = [] then [] else 0x2E # fd"], rule exI [of _ w1], rule exI [of _ w2])
     (use assms in simp)

lemma digit_ascii: "0x30 \<le> c \<Longrightarrow> c \<le> 0x39 \<Longrightarrow> is_digit U c"
  by (simp add: is_digit_def digit_value_def)

lemma ex_temp_7:
  assumes "wf_ucd U"
  shows "\<exists>ts st. extract_latest U (str ''7.00'' @ [0xB0] @ str ''C'') = Inr (Some (Finite False 7), ts, st)"
proof -
  have d: "str ''7'' \<noteq> []" "list_all (is_digit U) (str ''7'')" "list_all (is_digit U) (str ''00'')"
    by (simp_all add: str_def digit_ascii)
  have sh: "temp_shape U (str ''7.00'') (str ''7.00'' @ [0xB0] @ str ''C'')"
    using temp_shape_text [OF d, of "[]" "[]" False] by (simp add: str_def)
  have f: "py_float U (str ''7.00'') = Inr (Finite False 7)"
    using py_float_text [OF d, of False] by (simp add: str_def digits_val_def digit_value_def ex_float_7)
  from temp_at_start [OF assms sh f, of "[]"] show ?thesis by simp
qed

lemma ex_temp_neg2:
  assumes "wf_ucd U"
  shows "\<exists>ts st. extract_latest U (str ''-2'' @ [0xB0] @ str ''C'') = Inr (Some (Finite True 2), ts, st)"
proof -
  have d: "str ''2'' \<noteq> []" "list_all (is_digit U) (str ''2'')" "list_all (is_digit U) []"
    by (simp_all add: str_def digit_ascii)
  have sh: "temp_shape U (str ''-2'') (str ''-2'' @ [0xB0] @ str ''C'')"
    using temp_shape_text [OF d, of "[]" "[]" True] by (simp add: str_def)
  have f: "py_float U (str ''-2'') = Inr (Finite True 2)"
    using py_float_text [OF d, of True] by (simp add: str_def digits_val_def digit_value_def ex_float_2)
  from temp_at_start [OF assms sh f, of "[]"] show ?thesis by simp
qed

lemma ex_temp_10:
  assumes "wf_ucd U"
  shows "\<exists>ts st. extract_latest U (str ''10 '' @ [0xB0] @ str '' C'') = Inr (Some (Finite False 10), ts, st)"
proof -
  have d: "str ''10'' \<noteq> []" "list_all (is_digit U) (str ''10'')" "list_all (is_digit U) []"
    by (simp_all add: str_def digit_ascii)
  have w: "list_all (is_space U) (str '' '')" by (simp add: str_def is_space_def)
  have sh: "temp_shape U (str ''10'') (str ''10 '' @ [0xB0] @ str '' C'')"
    using temp_shape_text [OF d w w, of False] by (simp add: str_def)
  have f: "py_float U (str ''10'') = Inr (Finite False 10)"
    using py_float_text [OF d, of False] by (simp add: str_def digits_val_def digit_value_def ex_float_10)
  from temp_at_start [OF assms sh f, of "[]"] show ?thesis by simp
qed

text \<open>
  C1. Where a page text holds a text of the temperature shape (an optional \<open>-\<close>, digits,
  optionally a point and digits, optional white space, the degree sign, optional white
  space, \<open>C\<close>), the extractor returns as \<open>temperature_c\<close> the float of the numeric portion
  of the occurrence that starts first; that float is the decimal number written there,
  rounded to the nearest binary64 value. Where no such text occurs, \<open>temperature_c\<close> is
  \<open>None\<close>. So \<open>7.00\<degree>C\<close> gives 7.0, \<open>-2\<degree>C\<close> gives -2.0 and \<open>10 \<degree> C\<close> gives 10.0.
\<close>

theorem temperature_first_match:
  assumes "wf_ucd U"
  shows "(\<forall>i num t. occurs_at s i t \<and> temp_shape U num t
            \<and> (\<forall>j n' t'. j < i \<longrightarrow> \<not> (occurs_at s j t' \<and> temp_shape U n' t'))
          \<longrightarrow> (\<exists>v ts st. py_float U num = Inr v \<and> extract_latest U s = Inr (Some v, ts, st)))
     \<and> ((\<forall>i num t. \<not> (occurs_at s i t \<and> temp_shape U num t))
          \<longrightarrow> (\<exists>ts st. extract_latest U s = Inr (None, ts, st)))
     \<and> (\<forall>neg ip fd. ip \<noteq> [] \<and> list_all (is_digit U) ip \<and> list_all (is_digit U) fd
          \<longrightarrow> py_float U ((if neg then [0x2D] else []) @ ip @ (if fd = [] then [] else 0x2E # fd)) =
                Inr (round_binary64 neg (digits_val U (ip @ fd)) (10 ^ length fd)))
     \<and> (\<exists>ts st. extract_latest U (str ''7.00'' @ [0xB0] @ str ''C'') = Inr (Some (Finite False 7), ts, st))
     \<and> (\<exists>ts st. extract_latest U (str ''-2'' @ [0xB0] @ str ''C'') = Inr (Some (Finite True 2), ts, st))
     \<and> (\<exists>ts st. extract_latest U (str ''10 '' @ [0xB0] @ str '' C'') = Inr (Some (Finite False 10), ts, st))"
proof (intro conjI allI impI)
  fix i num t
  assume a: "occurs_at s i t \<and> temp_shape U num t
            \<and> (\<forall>j n' t'. j < i \<longrightarrow> \<not> (occurs_at s j t' \<and> temp_shape U n' t'))"
  then have first: "\<forall>j < i. \<forall>n' t'. \<not> (occurs_at s j t' \<and> temp_shape U n' t')" by blast
  from a temp_first_occurrence [OF assms _ _ first, of t num] obtain m where
    m: "search U False temp_re s = Some m" "group1 s m = Some num" by blast
  from a have "num \<in> lang U False temp_num_re" unfolding temp_shape_lang by blast
  from py_float_num [OF this] obtain v where v: "py_float U num = Inr v" by blast
  from extract_latest_temp_Some [OF m v] v
  show "\<exists>v ts st. py_float U num = Inr v \<and> extract_latest U s = Inr (Some v, ts, st)" by blast
next
  assume "\<forall>i num t. \<not> (occurs_at s i t \<and> temp_shape U num t)"
  then have "search U False temp_re s = None" unfolding temp_search_None_iff .
  from extract_latest_temp_None [OF this]
  show "\<exists>ts st. extract_latest U s = Inr (None, ts, st)" by blast
next
  fix neg ip fd
  assume "ip \<noteq> [] \<and> list_all (is_digit U) ip \<and> list_all (is_digit U) fd"
  then show "py_float U ((if neg then [0x2D] else []) @ ip @ (if fd = [] then [] else 0x2E # fd)) =
                Inr (round_binary64 neg (digits_val U (ip @ fd)) (10 ^ length fd))"
    using py_float_text by blast
qed (rule ex_temp_7 ex_temp_neg2 ex_temp_10, rule assms)+

text \<open>The first example, run on the ASCII database: the whole result.\<close>

lemma ascii_search_ts_short: "search ascii_ucd False ts_re (str ''7.00'' @ [0xB0] @ str ''C'') = None"
  by code_simp

lemma ascii_search_ok_short: "search ascii_ucd True ok_re (str ''7.00'' @ [0xB0] @ str ''C'') = None"
  by code_simp

theorem temperature_first_match_witness:
  "wf_ucd ascii_ucd
   \<and> occurs_at (str ''7.00'' @ [0xB0] @ str ''C'') 0 (str ''7.00'' @ [0xB0] @ str ''C'')
   \<and> temp_shape ascii_ucd (str ''7.00'') (str ''7.00'' @ [0xB0] @ str ''C'')
   \<and> py_float ascii_ucd (str ''7.00'') = Inr (Finite False 7)
   \<and> extract_latest ascii_ucd (str ''7.00'' @ [0xB0] @ str ''C'') = Inr (Some (Finite False 7), None, None)"
proof -
  let ?s = "str ''7.00'' @ [0xB0] @ str ''C''"
  have d: "str ''7'' \<noteq> []" "list_all (is_digit ascii_ucd) (str ''7'')" "list_all (is_digit ascii_ucd) (str ''00'')"
    by (simp_all add: str_def digit_ascii)
  have o: "occurs_at ?s 0 ?s" by (simp add: occurs_at_def)
  have sh: "temp_shape ascii_ucd (str ''7.00'') ?s"
    using temp_shape_text [OF d, of "[]" "[]" False] by (simp add: str_def)
  note th = temperature_first_match [OF wf_ascii_ucd, of ?s]
  from th o sh obtain v ts st where v: "py_float ascii_ucd (str ''7.00'') = Inr v"
      "extract_latest ascii_ucd ?s = Inr (Some v, ts, st)"
    by blast
  from th obtain ts' st' where "extract_latest ascii_ucd ?s = Inr (Some (Finite False 7), ts', st')"
    by blast
  with v have v7: "v = Finite False 7" by simp
  have "extract_latest ascii_ucd ?s = Inr (Some (Finite False 7), None, None)"
    using v(2) v7 extract_latest_total [of ascii_ucd ?s] ascii_search_ts_short ascii_search_ok_short
    by auto
  with wf_ascii_ucd o sh v v7 show ?thesis by simp
qed

end
